theory Spec2Isabelle
  imports Main "HOL-Library.Word"
begin

section \<open>The integer stack device: data model\<close>

text \<open>
  The repository holds two generations of one character-device driver, \<open>int_stack\<close>.
  The first (lab 4) is a misc device whose \<open>read\<close> pops an \<open>int\<close>, whose
  \<open>write\<close> pushes one and whose \<open>ioctl\<close> resizes, queries and clears the buffer.
  The second (lab 5) is the same driver behind a USB presence check: each entry point first
  reads \<open>usb_key_present\<close> and answers \<open>-ENODEV\<close> while the key is away; the rest of
  each function is the lab 4 text, unchanged.

  The model follows that structure. The lab 4 functions are embedded under their own names
  on the \<open>struct integer_buffer\<close>; the lab 5 entry points carry the suffix \<open>_lab5\<close>, work
  on the driver's globals, and fall through to the lab 4 bodies.

  \<^item> \<open>size_t\<close> is a 64-bit word and \<open>int\<close> a 32-bit word (LP64, the kernel's model);
    \<open>+\<close>, \<open>-\<close> and \<open>*\<close> wrap, \<open>sint\<close> reads an \<open>int\<close> signed.
  \<^item> \<open>int *elements\<close> is \<open>None\<close> for \<open>NULL\<close> and \<open>Some xs\<close> for an allocated array
    of \<open>length xs\<close> ints.
  \<^item> A function's result is \<open>None\<close> when the C text would read or write outside an
    allocated array or through \<open>NULL\<close> (undefined behaviour); otherwise it is \<open>Some\<close> of
    the return value and the state left behind.
  \<^item> A negative return value \<open>-E\<close> is \<open>Inl E\<close>; a non-negative one is \<open>Inr\<close>.
  \<^item> \<open>op_lock\<close> is taken and released around every body; the model is sequential, one
    call at a time, and leaves the mutex out.
  \<^item> What the kernel decides outside the driver (whether \<open>kzalloc\<close> finds memory, what
    \<open>copy_from_user\<close> reads, whether \<open>copy_to_user\<close> succeeds) is the \<open>env\<close> of a call.
  \<^item> \<open>kfree\<close> hands memory back to the allocator; nothing in this model observes it.
  \<^item> The ioctl numbers built by \<open>_IOW\<close>, \<open>_IOR\<close> and \<open>_IO\<close> are an enumeration;
    \<open>CMD_UNKNOWN\<close> is any number that is none of the four.
  \<^item> \<open>EOTHER\<close> is any error code that \<open>misc_register\<close> or \<open>usb_register\<close> may return
    and the driver only passes on.
  \<^item> The module parameters (\<open>default_capacity\<close>, \<open>enable_auto_resize\<close>, \<open>usb_vid\<close>,
    \<open>usb_pid\<close>) are writable at run time, so each function takes the ones it reads as
    arguments.
\<close>

type_synonym size_t = "64 word"
type_synonym cint = "32 word"

datatype errno = ENODEV | EINVAL | EFAULT | ENOMEM | ENOSPC | ENOTTY | EOTHER

record buffer_stats =
  push_count :: cint
  pop_count :: cint
  overflow_count :: cint
  underflow_count :: cint

record integer_buffer =
  elements :: "cint list option"
  capacity :: size_t
  position :: size_t
  stats :: buffer_stats

record env =
  kzalloc_ok :: bool
  from_user :: "cint option"
  to_user_ok :: bool

datatype ioctl_cmd =
  INT_STACK_SET_MAX_SIZE | CMD_GET_CAPACITY | CMD_GET_USAGE | CMD_CLEAR_BUFFER | CMD_UNKNOWN

subsection \<open>Kernel services\<close>

definition sizeof_int :: size_t where
  "sizeof_int = 4"

text \<open>
  \<open>KMALLOC_MAX_SIZE\<close> is the kernel's limit on one \<open>kmalloc\<close> request
  (\<open>include/linux/slab.h\<close>; 4 MiB with 4 KiB pages). A larger request returns \<open>NULL\<close>
  whatever memory is free. The general lemmas use only that the limit is below \<open>2 ^ 63\<close>;
  the sample runs also use that a few dozen bytes are below it.
\<close>

definition KMALLOC_MAX_SIZE :: nat where
  "KMALLOC_MAX_SIZE = 2 ^ 22"

text \<open>
  \<open>kzalloc nbytes\<close>: a zero-filled block of \<open>nbytes\<close> bytes, seen as an array of ints, or
  \<open>NULL\<close>. A request of zero bytes returns the non-null \<open>ZERO_SIZE_PTR\<close>, an array with
  no element.
\<close>

definition kzalloc :: "bool \<Rightarrow> size_t \<Rightarrow> cint list option" where
  "kzalloc avail nbytes =
     (if nbytes = 0 then Some []
      else if avail \<and> unat nbytes \<le> KMALLOC_MAX_SIZE
        then Some (replicate (unat nbytes div unat sizeof_int) 0)
      else None)"

text \<open>
  \<open>memcpy dst src n\<close> copies \<open>n\<close> bytes, that is \<open>n div sizeof(int)\<close> ints; it is
  undefined when either array is shorter.
\<close>

definition memcpy :: "cint list \<Rightarrow> cint list \<Rightarrow> size_t \<Rightarrow> cint list option" where
  "memcpy dst src n =
     (let k = unat n div unat sizeof_int
      in if k \<le> length dst \<and> k \<le> length src then Some (take k src @ drop k dst) else None)"

definition array_read :: "cint list option \<Rightarrow> size_t \<Rightarrow> cint option" where
  "array_read arr i =
     (case arr of
        None \<Rightarrow> None
      | Some xs \<Rightarrow> if unat i < length xs then Some (xs ! unat i) else None)"

definition array_write :: "cint list option \<Rightarrow> size_t \<Rightarrow> cint \<Rightarrow> cint list option" where
  "array_write arr i v =
     (case arr of
        None \<Rightarrow> None
      | Some xs \<Rightarrow> if unat i < length xs then Some (xs[unat i := v]) else None)"

definition atomic_inc :: "cint \<Rightarrow> cint" where
  "atomic_inc c = c + 1"

section \<open>Lab 4: the misc device\<close>

definition buffer_open :: "(errno + unit)" where
  "buffer_open = Inr ()"

definition resize_buffer ::
  "bool \<Rightarrow> size_t \<Rightarrow> integer_buffer \<Rightarrow> ((errno + unit) \<times> integer_buffer) option" where
  "resize_buffer avail new_capacity b =
     (if new_capacity = 0 then
        Some (Inr (), b\<lparr>elements := None, capacity := 0, position := 0\<rparr>)
      else
        case kzalloc avail (sizeof_int * new_capacity) of
          None \<Rightarrow> Some (Inl ENOMEM, b)
        | Some new_array \<Rightarrow>
            if elements b \<noteq> None \<and> position b > 0 then
              (let copy_size = min (position b) new_capacity
               in case memcpy new_array (the (elements b)) (sizeof_int * copy_size) of
                    None \<Rightarrow> None
                  | Some filled \<Rightarrow>
                      Some (Inr (), b\<lparr>position := copy_size,
                                      elements := Some filled,
                                      capacity := new_capacity\<rparr>))
            else
              Some (Inr (), b\<lparr>position := 0,
                              elements := Some new_array,
                              capacity := new_capacity\<rparr>))"

definition buffer_ioctl ::
  "env \<Rightarrow> ioctl_cmd \<Rightarrow> integer_buffer \<Rightarrow>
     ((errno + unit) \<times> cint option \<times> integer_buffer) option" where
  "buffer_ioctl e cmd b =
     (case cmd of
        INT_STACK_SET_MAX_SIZE \<Rightarrow>
          (case from_user e of
             None \<Rightarrow> Some (Inl EFAULT, None, b)
           | Some v \<Rightarrow>
               if sint v < 0 then Some (Inl EINVAL, None, b)
               else (case resize_buffer (kzalloc_ok e) (scast v) b of
                       None \<Rightarrow> None
                     | Some (result, b') \<Rightarrow> Some (result, None, b')))
      | CMD_GET_CAPACITY \<Rightarrow>
          (let v = (ucast (capacity b) :: cint)
           in if to_user_ok e then Some (Inr (), Some v, b) else Some (Inl EFAULT, None, b))
      | CMD_GET_USAGE \<Rightarrow>
          (let v = (ucast (position b) :: cint)
           in if to_user_ok e then Some (Inr (), Some v, b) else Some (Inl EFAULT, None, b))
      | CMD_CLEAR_BUFFER \<Rightarrow> Some (Inr (), None, b\<lparr>position := 0\<rparr>)
      | CMD_UNKNOWN \<Rightarrow> Some (Inl ENOTTY, None, b))"

definition buffer_read ::
  "env \<Rightarrow> size_t \<Rightarrow> integer_buffer \<Rightarrow>
     ((errno + size_t) \<times> cint option \<times> integer_buffer) option" where
  "buffer_read e count b =
     (if count < sizeof_int then Some (Inl EINVAL, None, b)
      else if position b = 0 then
        Some (Inr 0, None,
              b\<lparr>stats := (stats b)\<lparr>underflow_count :=
                                      atomic_inc (underflow_count (stats b))\<rparr>\<rparr>)
      else
        (let b1 = b\<lparr>position := position b - 1\<rparr>
         in case array_read (elements b1) (position b1) of
              None \<Rightarrow> None
            | Some v \<Rightarrow>
                if \<not> to_user_ok e then
                  Some (Inl EFAULT, None, b1\<lparr>position := position b1 + 1\<rparr>)
                else
                  Some (Inr sizeof_int, Some v,
                        b1\<lparr>stats := (stats b1)\<lparr>pop_count :=
                                                  atomic_inc (pop_count (stats b1))\<rparr>\<rparr>)))"

text \<open>
  The last three statements of \<open>buffer_write\<close>, reached on both the path that found room
  and the path that grew the buffer:
  \<open>elements[position++] = value; atomic_inc(&stats.push_count); return sizeof(int)\<close>.
\<close>

definition store_value ::
  "cint \<Rightarrow> integer_buffer \<Rightarrow> ((errno + size_t) \<times> integer_buffer) option" where
  "store_value v b =
     (case array_write (elements b) (position b) v of
        None \<Rightarrow> None
      | Some arr \<Rightarrow>
          Some (Inr sizeof_int,
                b\<lparr>elements := Some arr,
                  position := position b + 1,
                  stats := (stats b)\<lparr>push_count := atomic_inc (push_count (stats b))\<rparr>\<rparr>))"

definition count_overflow :: "integer_buffer \<Rightarrow> integer_buffer" where
  "count_overflow b =
     b\<lparr>stats := (stats b)\<lparr>overflow_count := atomic_inc (overflow_count (stats b))\<rparr>\<rparr>"

definition buffer_write ::
  "cint \<Rightarrow> env \<Rightarrow> size_t \<Rightarrow> integer_buffer \<Rightarrow>
     ((errno + size_t) \<times> integer_buffer) option" where
  "buffer_write enable_auto_resize e count b =
     (if count \<noteq> sizeof_int then Some (Inl EINVAL, b)
      else
        case from_user e of
          None \<Rightarrow> Some (Inl EFAULT, b)
        | Some v \<Rightarrow>
            if position b \<ge> capacity b then
              (if enable_auto_resize \<noteq> 0 then
                 (let new_capacity = max (capacity b * 2) 8
                  in case resize_buffer (kzalloc_ok e) new_capacity b of
                       None \<Rightarrow> None
                     | Some (Inl err, b') \<Rightarrow> Some (Inl ENOSPC, count_overflow b')
                     | Some (Inr ok, b') \<Rightarrow> store_value v b')
               else Some (Inl ENOSPC, count_overflow b))
            else store_value v b)"

text \<open>
  \<open>integer_buffer_init\<close>: the device structure comes zeroed from \<open>kzalloc\<close>
  (\<open>struct_ok\<close> tells whether that allocation succeeds), the fields are set, the misc
  device is registered (\<open>misc\<close> is the error of \<open>misc_register\<close>, if any), and a
  positive \<open>default_capacity\<close> allocates the first array.
\<close>

definition init_stats :: "buffer_stats \<Rightarrow> buffer_stats" where
  "init_stats st =
     st\<lparr>push_count := 0, pop_count := 0, overflow_count := 0, underflow_count := 0\<rparr>"

definition zeroed_buffer :: integer_buffer where
  "zeroed_buffer =
     \<lparr>elements = None, capacity = 0, position = 0,
      stats = \<lparr>push_count = 0, pop_count = 0, overflow_count = 0, underflow_count = 0\<rparr>\<rparr>"

definition integer_buffer_init ::
  "cint \<Rightarrow> bool \<Rightarrow> errno option \<Rightarrow> bool \<Rightarrow> (errno + integer_buffer) option" where
  "integer_buffer_init default_capacity struct_ok misc array_ok =
     (if \<not> struct_ok then Some (Inl ENOMEM)
      else
        (let b = zeroed_buffer\<lparr>elements := None, capacity := 0, position := 0\<rparr>;
             b = b\<lparr>stats := init_stats (stats b)\<rparr>
         in case misc of
              Some err \<Rightarrow> Some (Inl err)
            | None \<Rightarrow>
                if 0 < sint default_capacity then
                  (case resize_buffer array_ok (scast default_capacity) b of
                     None \<Rightarrow> None
                   | Some (Inl err, b') \<Rightarrow> Some (Inl err)
                   | Some (Inr ok, b') \<Rightarrow> Some (Inr b'))
                else Some (Inr b)))"

section \<open>Lab 5: the same device behind the USB key\<close>

record driver =
  usb_key_present :: cint
  device_registered :: cint
  dev_buffer :: integer_buffer

record usb_device =
  idVendor :: "16 word"
  idProduct :: "16 word"

definition buffer_open_lab5 :: "driver \<Rightarrow> (errno + unit)" where
  "buffer_open_lab5 s = (if usb_key_present s = 0 then Inl ENODEV else Inr ())"

definition buffer_ioctl_lab5 ::
  "env \<Rightarrow> ioctl_cmd \<Rightarrow> driver \<Rightarrow> ((errno + unit) \<times> cint option \<times> driver) option" where
  "buffer_ioctl_lab5 e cmd s =
     (if usb_key_present s = 0 then Some (Inl ENODEV, None, s)
      else case buffer_ioctl e cmd (dev_buffer s) of
             None \<Rightarrow> None
           | Some (result, out, b') \<Rightarrow> Some (result, out, s\<lparr>dev_buffer := b'\<rparr>))"

definition buffer_read_lab5 ::
  "env \<Rightarrow> size_t \<Rightarrow> driver \<Rightarrow> ((errno + size_t) \<times> cint option \<times> driver) option" where
  "buffer_read_lab5 e count s =
     (if usb_key_present s = 0 then Some (Inl ENODEV, None, s)
      else case buffer_read e count (dev_buffer s) of
             None \<Rightarrow> None
           | Some (result, out, b') \<Rightarrow> Some (result, out, s\<lparr>dev_buffer := b'\<rparr>))"

definition buffer_write_lab5 ::
  "cint \<Rightarrow> env \<Rightarrow> size_t \<Rightarrow> driver \<Rightarrow> ((errno + size_t) \<times> driver) option" where
  "buffer_write_lab5 enable_auto_resize e count s =
     (if usb_key_present s = 0 then Some (Inl ENODEV, s)
      else case buffer_write enable_auto_resize e count (dev_buffer s) of
             None \<Rightarrow> None
           | Some (result, b') \<Rightarrow> Some (result, s\<lparr>dev_buffer := b'\<rparr>))"

definition initialize_buffer ::
  "cint \<Rightarrow> bool \<Rightarrow> bool \<Rightarrow> (errno + integer_buffer) option" where
  "initialize_buffer default_capacity struct_ok array_ok =
     (if \<not> struct_ok then Some (Inl ENOMEM)
      else
        (let b = zeroed_buffer\<lparr>elements := None, capacity := 0, position := 0\<rparr>;
             b = b\<lparr>stats := init_stats (stats b)\<rparr>
         in if 0 < sint default_capacity then
              (case resize_buffer array_ok (scast default_capacity) b of
                 None \<Rightarrow> None
               | Some (Inl err, b') \<Rightarrow> Some (Inl err)
               | Some (Inr ok, b') \<Rightarrow> Some (Inr b'))
            else Some (Inr b)))"

definition register_device :: "errno option \<Rightarrow> driver \<Rightarrow> (errno + unit) \<times> driver" where
  "register_device misc s =
     (if device_registered s \<noteq> 0 then (Inr (), s)
      else case misc of
             Some err \<Rightarrow> (Inl err, s)
           | None \<Rightarrow> (Inr (), s\<lparr>device_registered := 1\<rparr>))"

definition unregister_device :: "driver \<Rightarrow> driver" where
  "unregister_device s =
     (if device_registered s \<noteq> 0 then s\<lparr>device_registered := 0\<rparr> else s)"

definition pen_probe ::
  "cint \<Rightarrow> cint \<Rightarrow> errno option \<Rightarrow> usb_device \<Rightarrow> driver \<Rightarrow> (errno + unit) \<times> driver" where
  "pen_probe usb_vid usb_pid misc dev s =
     (if uint (idVendor dev) \<noteq> sint usb_vid \<or> uint (idProduct dev) \<noteq> sint usb_pid
      then (Inl ENODEV, s)
      else
        (let s1 = s\<lparr>usb_key_present := 1\<rparr>
         in case register_device misc s1 of
              (Inl err, s2) \<Rightarrow> (Inl err, s2)
            | (Inr ok, s2) \<Rightarrow> (Inr (), s2)))"

definition pen_disconnect :: "cint \<Rightarrow> cint \<Rightarrow> usb_device \<Rightarrow> driver \<Rightarrow> driver" where
  "pen_disconnect usb_vid usb_pid dev s =
     (if uint (idVendor dev) \<noteq> sint usb_vid \<or> uint (idProduct dev) \<noteq> sint usb_pid
      then s
      else unregister_device (s\<lparr>usb_key_present := 0\<rparr>))"

text \<open>
  Module load in lab 5: the buffer is set up, then the USB driver is registered
  (\<open>usb\<close> is the error of \<open>usb_register\<close>, if any). The two flags start at
  \<open>ATOMIC_INIT(0)\<close>.
\<close>

definition integer_buffer_init_lab5 ::
  "cint \<Rightarrow> bool \<Rightarrow> bool \<Rightarrow> errno option \<Rightarrow> (errno + driver) option" where
  "integer_buffer_init_lab5 default_capacity struct_ok array_ok usb =
     (case initialize_buffer default_capacity struct_ok array_ok of
        None \<Rightarrow> None
      | Some (Inl err) \<Rightarrow> Some (Inl err)
      | Some (Inr b) \<Rightarrow>
          (case usb of
             Some err \<Rightarrow> Some (Inl err)
           | None \<Rightarrow>
               Some (Inr \<lparr>usb_key_present = 0, device_registered = 0, dev_buffer = b\<rparr>)))"

section \<open>The client's requests\<close>

text \<open>
  The command-line client pushes with \<open>write(fd, &int_value, sizeof(int_value))\<close> and pops
  with \<open>read(fd, &value, sizeof(value))\<close>, both on its own stack variables, so the copies
  from and to user space succeed.
\<close>

definition push ::
  "cint \<Rightarrow> bool \<Rightarrow> cint \<Rightarrow> integer_buffer \<Rightarrow> ((errno + size_t) \<times> integer_buffer) option" where
  "push enable_auto_resize avail v b =
     buffer_write enable_auto_resize
       \<lparr>kzalloc_ok = avail, from_user = Some v, to_user_ok = True\<rparr> sizeof_int b"

definition pop ::
  "integer_buffer \<Rightarrow> ((errno + size_t) \<times> cint option \<times> integer_buffer) option" where
  "pop b = buffer_read \<lparr>kzalloc_ok = True, from_user = None, to_user_ok = True\<rparr> sizeof_int b"

text \<open>A run of pushes that all succeed, and a run of \<open>n\<close> pops that all deliver a value.\<close>

fun pushes :: "cint \<Rightarrow> bool \<Rightarrow> cint list \<Rightarrow> integer_buffer \<Rightarrow> integer_buffer option" where
  "pushes enable_auto_resize avail [] b = Some b"
| "pushes enable_auto_resize avail (v # vs) b =
     (case push enable_auto_resize avail v b of
        Some (Inr n, b') \<Rightarrow> pushes enable_auto_resize avail vs b'
      | _ \<Rightarrow> None)"

fun pops :: "nat \<Rightarrow> integer_buffer \<Rightarrow> (cint list \<times> integer_buffer) option" where
  "pops 0 b = Some ([], b)"
| "pops (Suc n) b =
     (case pop b of
        Some (Inr r, Some v, b') \<Rightarrow>
          (case pops n b' of None \<Rightarrow> None | Some (vs, b'') \<Rightarrow> Some (v # vs, b''))
      | _ \<Rightarrow> None)"

section \<open>The stack a buffer holds, and the buffer's invariant\<close>

definition contents :: "integer_buffer \<Rightarrow> cint list" where
  "contents b = (case elements b of None \<Rightarrow> [] | Some xs \<Rightarrow> xs)"

text \<open>The occupied slots \<open>elements[0 .. position - 1]\<close>, bottom first.\<close>

definition stack_of :: "integer_buffer \<Rightarrow> cint list" where
  "stack_of b = take (unat (position b)) (contents b)"

definition buffer_inv :: "integer_buffer \<Rightarrow> bool" where
  "buffer_inv b =
     (position b \<le> capacity b \<and>
      length (contents b) = unat (capacity b) \<and>
      unat sizeof_int * unat (capacity b) \<le> KMALLOC_MAX_SIZE)"

text \<open>The states of the lab 4 device: what module load leaves, and what any call leaves.\<close>

inductive reachable :: "integer_buffer \<Rightarrow> bool" where
  after_init: "integer_buffer_init default_capacity struct_ok misc array_ok = Some (Inr b)
         \<Longrightarrow> reachable b"
| after_read: "reachable b \<Longrightarrow> buffer_read e count b = Some (r, out, b') \<Longrightarrow> reachable b'"
| after_write: "reachable b \<Longrightarrow> buffer_write enable_auto_resize e count b = Some (r, b')
          \<Longrightarrow> reachable b'"
| after_ioctl: "reachable b \<Longrightarrow> buffer_ioctl e cmd b = Some (r, out, b') \<Longrightarrow> reachable b'"

text \<open>The states of the lab 5 driver, where the key may also come and go.\<close>

inductive reachable_lab5 :: "driver \<Rightarrow> bool" where
  after_init5: "integer_buffer_init_lab5 default_capacity struct_ok array_ok usb = Some (Inr s)
          \<Longrightarrow> reachable_lab5 s"
| after_probe5: "reachable_lab5 s \<Longrightarrow> pen_probe usb_vid usb_pid misc dev s = (r, s')
           \<Longrightarrow> reachable_lab5 s'"
| after_disconnect5: "reachable_lab5 s \<Longrightarrow> reachable_lab5 (pen_disconnect usb_vid usb_pid dev s)"
| after_read5: "reachable_lab5 s \<Longrightarrow> buffer_read_lab5 e count s = Some (r, out, s')
          \<Longrightarrow> reachable_lab5 s'"
| after_write5: "reachable_lab5 s \<Longrightarrow> buffer_write_lab5 enable_auto_resize e count s = Some (r, s')
           \<Longrightarrow> reachable_lab5 s'"
| after_ioctl5: "reachable_lab5 s \<Longrightarrow> buffer_ioctl_lab5 e cmd s = Some (r, out, s')
           \<Longrightarrow> reachable_lab5 s'"

text \<open>
  What a successful \<open>resize_buffer k\<close> leaves when the invariant held before: the first
  \<open>min position k\<close> ints of the old array, then zeros up to \<open>k\<close>.
\<close>

definition resized :: "size_t \<Rightarrow> integer_buffer \<Rightarrow> integer_buffer" where
  "resized k b =
     b\<lparr>position := min (position b) k,
       elements := Some (take (unat (min (position b) k)) (contents b)
                          @ replicate (unat k - unat (min (position b) k)) 0),
       capacity := k\<rparr>"

text \<open>
  What a successful \<open>store_value\<close> and a successful pop leave, what a resize to \<open>k\<close>
  looks like from outside, and what the two outcomes of a push on a full buffer look like
  from outside.
\<close>

definition stored :: "cint \<Rightarrow> integer_buffer \<Rightarrow> integer_buffer" where
  "stored v b =
     b\<lparr>elements := Some ((contents b)[unat (position b) := v]),
       position := position b + 1,
       stats := (stats b)\<lparr>push_count := push_count (stats b) + 1\<rparr>\<rparr>"

definition popped :: "integer_buffer \<Rightarrow> integer_buffer" where
  "popped b =
     b\<lparr>position := position b - 1,
       stats := (stats b)\<lparr>pop_count := pop_count (stats b) + 1\<rparr>\<rparr>"

definition keeps_oldest :: "size_t \<Rightarrow> integer_buffer \<Rightarrow> integer_buffer \<Rightarrow> bool" where
  "keeps_oldest k b b' =
     (capacity b' = k \<and>
      position b' = (if k < position b then k else position b) \<and>
      stack_of b' = (if k < position b then take (unat k) (stack_of b) else stack_of b) \<and>
      (\<forall>i < unat (position b'). contents b' ! i = contents b ! i) \<and>
      stats b' = stats b)"

definition overflowed :: "integer_buffer \<Rightarrow> integer_buffer \<Rightarrow> bool" where
  "overflowed b b' =
     (position b' = capacity b' \<and> capacity b' = capacity b \<and> elements b' = elements b \<and>
      position b' = position b \<and>
      overflow_count (stats b') = overflow_count (stats b) + 1 \<and>
      push_count (stats b') = push_count (stats b))"

definition grown_and_pushed :: "cint \<Rightarrow> integer_buffer \<Rightarrow> integer_buffer \<Rightarrow> bool" where
  "grown_and_pushed v b b' =
     (capacity b' = max (capacity b * 2) 8 \<and>
      unat (capacity b') = max (2 * unat (capacity b)) 8 \<and>
      array_read (elements b') (position b) = Some v \<and>
      position b' = position b + 1 \<and>
      stack_of b' = stack_of b @ [v] \<and>
      push_count (stats b') = push_count (stats b) + 1 \<and>
      overflow_count (stats b') = overflow_count (stats b))"

subsection \<open>Sample states\<close>

definition sample_buffer :: integer_buffer where
  "sample_buffer =
     \<lparr>elements = Some [10, 20, 30, 0], capacity = 4, position = 3,
      stats = \<lparr>push_count = 3, pop_count = 0, overflow_count = 0, underflow_count = 0\<rparr>\<rparr>"

definition empty_buffer :: integer_buffer where
  "empty_buffer =
     \<lparr>elements = Some [10, 20], capacity = 2, position = 0,
      stats = \<lparr>push_count = 2, pop_count = 2, overflow_count = 0, underflow_count = 5\<rparr>\<rparr>"

definition sample_env :: env where
  "sample_env = \<lparr>kzalloc_ok = True, from_user = Some 7, to_user_ok = True\<rparr>"

definition absent_driver :: driver where
  "absent_driver = \<lparr>usb_key_present = 0, device_registered = 0, dev_buffer = sample_buffer\<rparr>"

definition present_driver :: driver where
  "present_driver = \<lparr>usb_key_present = 1, device_registered = 1, dev_buffer = sample_buffer\<rparr>"

definition roomy_buffer :: integer_buffer where
  "roomy_buffer =
     \<lparr>elements = Some [10, 0, 0, 0], capacity = 4, position = 1,
      stats = \<lparr>push_count = 1, pop_count = 0, overflow_count = 0, underflow_count = 0\<rparr>\<rparr>"

definition full_buffer :: integer_buffer where
  "full_buffer =
     \<lparr>elements = Some [10, 20], capacity = 2, position = 2,
      stats = \<lparr>push_count = 2, pop_count = 0, overflow_count = 0, underflow_count = 0\<rparr>\<rparr>"

definition fresh_buffer :: integer_buffer where
  "fresh_buffer =
     \<lparr>elements = Some [0, 0], capacity = 2, position = 0,
      stats = \<lparr>push_count = 0, pop_count = 0, overflow_count = 0, underflow_count = 0\<rparr>\<rparr>"

definition fresh_driver :: driver where
  "fresh_driver = \<lparr>usb_key_present = 0, device_registered = 0, dev_buffer = fresh_buffer\<rparr>"

definition starved_env :: env where
  "starved_env = \<lparr>kzalloc_ok = False, from_user = Some 7, to_user_ok = False\<rparr>"

definition zero_env :: env where
  "zero_env = \<lparr>kzalloc_ok = True, from_user = Some 0, to_user_ok = True\<rparr>"

definition nocopy_env :: env where
  "nocopy_env = \<lparr>kzalloc_ok = True, from_user = None, to_user_ok = False\<rparr>"

definition shrink_env :: env where
  "shrink_env = \<lparr>kzalloc_ok = True, from_user = Some 2, to_user_ok = True\<rparr>"

section \<open>Arithmetic on sizes\<close>

lemma unat_sizeof_int: "unat sizeof_int = 4"
  by (simp add: sizeof_int_def)

lemma KMALLOC_MAX_SIZE_bound: "KMALLOC_MAX_SIZE < 2 ^ 63"
  by (simp add: KMALLOC_MAX_SIZE_def)

lemma unat_times4:
  fixes k :: size_t
  assumes "unat k < 2 ^ 62"
  shows "unat (sizeof_int * k) = 4 * unat k"
proof -
  have "unat (sizeof_int * k) = (4 * unat k) mod 2 ^ 64"
    by (simp add: unat_word_ariths unat_sizeof_int)
  moreover have "4 * unat k < 2 ^ 64"
    using assms by simp
  ultimately show ?thesis by simp
qed

lemma unat_double:
  fixes c :: size_t
  assumes "unat c < 2 ^ 63"
  shows "unat (c * 2) = 2 * unat c"
proof -
  have "unat (c * 2) = (unat c * 2) mod 2 ^ 64"
    by (simp add: unat_word_ariths)
  moreover have "unat c * 2 < 2 ^ 64"
    using assms by simp
  ultimately show ?thesis by simp
qed

lemma unat_scast_nonneg:
  fixes v :: cint
  assumes "\<not> sint v < 0"
  shows "unat (scast v :: size_t) = nat (sint v)" and "unat (scast v :: size_t) < 2 ^ 31"
proof -
  have lo: "0 \<le> sint v" using assms by simp
  have hi: "sint v < 2 ^ 31" using sint_lt [of v] by simp
  have hi': "sint v < 2 ^ LENGTH(64)"
  proof -
    have "(2::int) ^ 31 \<le> 2 ^ LENGTH(64)" by (rule power_increasing) simp_all
    with hi show ?thesis by linarith
  qed
  have "word_of_int (sint v) = (scast v :: size_t)"
    by (simp only: scast_eq)
  then have "uint (scast v :: size_t) = sint v"
    using lo hi' by (rule word_of_int_inverse)
  moreover have "unat (scast v :: size_t) = nat (uint (scast v :: size_t))"
    by (rule unat_eq_nat_uint)
  ultimately show eq: "unat (scast v :: size_t) = nat (sint v)" by (simp only:)
  from hi lo have "nat (sint v) < 2 ^ 31" by (simp add: nat_less_iff)
  with eq show "unat (scast v :: size_t) < 2 ^ 31" by (simp only:)
qed

lemma buffer_inv_position: "buffer_inv b \<Longrightarrow> unat (position b) \<le> unat (capacity b)"
  by (simp add: buffer_inv_def word_le_nat_alt)

lemma buffer_inv_length: "buffer_inv b \<Longrightarrow> length (contents b) = unat (capacity b)"
  by (simp add: buffer_inv_def)

lemma buffer_inv_capacity: "buffer_inv b \<Longrightarrow> 4 * unat (capacity b) \<le> KMALLOC_MAX_SIZE"
  by (simp add: buffer_inv_def unat_sizeof_int)

lemma buffer_inv_capacity_small: "buffer_inv b \<Longrightarrow> unat (capacity b) < 2 ^ 61"
  using buffer_inv_capacity [of b] KMALLOC_MAX_SIZE_bound by simp

lemma length_stack_of: "buffer_inv b \<Longrightarrow> length (stack_of b) = unat (position b)"
  using buffer_inv_position [of b] by (simp add: stack_of_def buffer_inv_length)

lemma kzalloc_ints:
  fixes k :: size_t
  assumes "k \<noteq> 0" and "unat k < 2 ^ 62"
  shows "kzalloc avail (sizeof_int * k) =
           (if avail \<and> 4 * unat k \<le> KMALLOC_MAX_SIZE then Some (replicate (unat k) 0) else None)"
proof -
  have u: "unat (sizeof_int * k) = 4 * unat k"
    using assms(2) by (rule unat_times4)
  have "unat k \<noteq> 0" using assms(1) by (simp add: unat_eq_zero)
  with u have "unat (sizeof_int * k) \<noteq> 0" by simp
  then have nz: "sizeof_int * k \<noteq> 0" by (metis unat_eq_zero)
  show ?thesis
    unfolding kzalloc_def using nz by (simp add: u unat_sizeof_int)
qed

lemma memcpy_ints:
  fixes n :: size_t
  assumes "unat n < 2 ^ 62" and "unat n \<le> length dst" and "unat n \<le> length src"
  shows "memcpy dst src (sizeof_int * n) = Some (take (unat n) src @ drop (unat n) dst)"
  using assms by (simp add: memcpy_def Let_def unat_times4 unat_sizeof_int)


lemma resize_buffer_eq:
  assumes inv: "buffer_inv b" and nz: "k \<noteq> 0" and small: "unat k < 2 ^ 62"
  shows "resize_buffer avail k b =
           (if avail \<and> 4 * unat k \<le> KMALLOC_MAX_SIZE then Some (Inr (), resized k b)
            else Some (Inl ENOMEM, b))"
proof (cases "avail \<and> 4 * unat k \<le> KMALLOC_MAX_SIZE")
  case False
  then have "kzalloc avail (sizeof_int * k) = None"
    using kzalloc_ints [OF nz small, of avail] by simp
  with False nz show ?thesis by (simp add: resize_buffer_def)
next
  case True
  then have kz: "kzalloc avail (sizeof_int * k) = Some (replicate (unat k) 0)"
    using kzalloc_ints [OF nz small, of avail] by simp
  show ?thesis
  proof (cases "elements b \<noteq> None \<and> position b > 0")
    case copy: True
    then obtain old where old: "elements b = Some old" by auto
    then have c: "contents b = old" by (simp add: contents_def)
    let ?n = "min (position b) k"
    have n_le_k: "unat ?n \<le> unat k"
      by (simp add: word_le_nat_alt [symmetric])
    have n_le_pos: "unat ?n \<le> unat (position b)"
      by (simp add: word_le_nat_alt [symmetric])
    have "unat ?n \<le> length old"
      using n_le_pos buffer_inv_position [OF inv] buffer_inv_length [OF inv] c by simp
    moreover have "unat ?n < 2 ^ 62" using n_le_k small by simp
    ultimately have
      "memcpy (replicate (unat k) 0) old (sizeof_int * ?n) =
         Some (take (unat ?n) old @ drop (unat ?n) (replicate (unat k) 0))"
      using n_le_k by (simp add: memcpy_ints)
    then show ?thesis
      using True copy nz kz old c
      by (simp add: resize_buffer_def resized_def Let_def)
  next
    case nocopy: False
    then have "position b = 0"
    proof (cases "elements b")
      case None
      then have "contents b = []" by (simp add: contents_def)
      then have "unat (capacity b) = 0" using buffer_inv_length [OF inv] by simp
      then have "unat (position b) = 0" using buffer_inv_position [OF inv] by simp
      then show ?thesis by (simp add: unat_eq_zero)
    next
      case (Some a)
      with nocopy show ?thesis by (simp add: word_greater_zero_iff)
    qed
    then show ?thesis
      using True nocopy nz kz
      by (simp add: resize_buffer_def resized_def Let_def)
  qed
qed

section \<open>The operations under the invariant\<close>

lemma contents_resized:
  "contents (resized k b) =
     take (unat (min (position b) k)) (contents b) @ replicate (unat k - unat (min (position b) k)) 0"
  by (simp add: resized_def contents_def)

lemma unat_min_word: "unat (min a b) = min (unat a) (unat (b :: size_t))"
  by (simp add: min_def word_le_nat_alt)

lemma buffer_inv_resized:
  assumes "buffer_inv b" and "4 * unat k \<le> KMALLOC_MAX_SIZE"
  shows "buffer_inv (resized k b)"
proof -
  have "unat (min (position b) k) \<le> length (contents b)"
    using buffer_inv_position [OF assms(1)] buffer_inv_length [OF assms(1)]
    by (simp add: unat_min_word)
  then have "length (contents (resized k b)) = unat k"
    by (simp add: contents_resized unat_min_word)
  moreover have "position (resized k b) \<le> capacity (resized k b)"
    by (simp add: resized_def)
  moreover have "unat sizeof_int * unat (capacity (resized k b)) \<le> KMALLOC_MAX_SIZE"
    using assms(2) by (simp add: resized_def unat_sizeof_int)
  moreover have "capacity (resized k b) = k"
    by (simp add: resized_def)
  ultimately show ?thesis by (simp add: buffer_inv_def)
qed

lemma stack_of_resized:
  assumes "buffer_inv b"
  shows "stack_of (resized k b) = take (unat k) (stack_of b)"
proof -
  have "unat (min (position b) k) \<le> length (contents b)"
    using buffer_inv_position [OF assms] buffer_inv_length [OF assms]
    by (simp add: unat_min_word)
  then have "stack_of (resized k b) = take (unat (min (position b) k)) (contents b)"
    by (simp add: stack_of_def contents_resized) (simp add: resized_def)
  also have "\<dots> = take (unat k) (stack_of b)"
    by (simp add: stack_of_def unat_min_word min.commute)
  finally show ?thesis .
qed

lemma unat_Suc_position:
  assumes "position b < capacity b"
  shows "unat (position b + 1) = Suc (unat (position b))"
proof -
  have "unat (position b) < unat (capacity b)"
    using assms by (simp add: word_less_nat_alt)
  moreover have "unat (capacity b) < 2 ^ 64"
    using unsigned_less [of "capacity b"] by simp
  ultimately have "unat (position b) + 1 < 2 ^ 64" by simp
  then show ?thesis by (simp add: unat_word_ariths)
qed

lemma store_value_eq:
  assumes inv: "buffer_inv b" and room: "position b < capacity b"
  shows "store_value v b = Some (Inr sizeof_int, stored v b)"
proof -
  have lt: "unat (position b) < length (contents b)"
    using room buffer_inv_length [OF inv] by (simp add: word_less_nat_alt)
  then obtain xs where xs: "elements b = Some xs"
    by (cases "elements b") (simp_all add: contents_def)
  then have "contents b = xs" by (simp add: contents_def)
  with lt xs show ?thesis
    by (simp add: store_value_def array_write_def stored_def atomic_inc_def)
qed

lemma buffer_inv_stored:
  assumes inv: "buffer_inv b" and room: "position b < capacity b"
  shows "buffer_inv (stored v b)"
proof -
  have "unat (position b + 1) \<le> unat (capacity b)"
    using unat_Suc_position [OF room] room by (simp add: word_less_nat_alt)
  then have "position b + 1 \<le> capacity b" by (simp add: word_le_nat_alt)
  then show ?thesis
    using inv by (simp add: buffer_inv_def stored_def contents_def)
qed

lemma stack_of_stored:
  assumes inv: "buffer_inv b" and room: "position b < capacity b"
  shows "stack_of (stored v b) = stack_of b @ [v]"
proof -
  have lt: "unat (position b) < length (contents b)"
    using room buffer_inv_length [OF inv] by (simp add: word_less_nat_alt)
  have "stack_of (stored v b) = take (Suc (unat (position b))) ((contents b)[unat (position b) := v])"
    by (simp add: stack_of_def stored_def contents_def unat_Suc_position [OF room])
  also have "\<dots> = take (unat (position b)) (contents b) @ [v]"
    using lt by (simp add: take_Suc_conv_app_nth)
  finally show ?thesis by (simp add: stack_of_def)
qed

lemma buffer_read_eq:
  assumes inv: "buffer_inv b" and nonempty: "position b \<noteq> 0" and len: "sizeof_int \<le> count"
  shows "buffer_read e count b =
           (if to_user_ok e
            then Some (Inr sizeof_int, Some (last (stack_of b)), popped b)
            else Some (Inl EFAULT, None, b))"
proof -
  have pos: "0 < unat (position b)" using nonempty by (simp add: unat_gt_0)
  have u: "unat (position b - 1) = unat (position b) - 1"
    using nonempty by (simp add: unat_minus_one)
  have le: "unat (position b) \<le> length (contents b)"
    using buffer_inv_position [OF inv] buffer_inv_length [OF inv] by simp
  with pos obtain xs where xs: "elements b = Some xs"
    by (cases "elements b") (simp_all add: contents_def)
  then have c: "contents b = xs" by (simp add: contents_def)
  have lt: "unat (position b) - 1 < length xs" using pos le c by simp
  have "stack_of b \<noteq> []" using pos le by (auto simp: stack_of_def)
  then have "last (stack_of b) = stack_of b ! (length (stack_of b) - 1)"
    by (rule last_conv_nth)
  also have "\<dots> = xs ! (unat (position b) - 1)"
    using pos le c by (simp add: stack_of_def min_absorb2)
  finally have l: "last (stack_of b) = xs ! (unat (position b) - 1)" .
  show ?thesis
    using len nonempty xs lt
    by (simp add: buffer_read_def Let_def array_read_def u l popped_def atomic_inc_def
        not_less [symmetric])
qed

lemma buffer_inv_popped:
  assumes inv: "buffer_inv b" and nonempty: "position b \<noteq> 0"
  shows "buffer_inv (popped b)"
proof -
  have "unat (position b - 1) = unat (position b) - 1"
    using nonempty by (simp add: unat_minus_one)
  then have "position b - 1 \<le> capacity b"
    using buffer_inv_position [OF inv] by (simp add: word_le_nat_alt)
  then show ?thesis
    using inv by (simp add: buffer_inv_def popped_def contents_def)
qed

lemma stack_of_popped:
  assumes inv: "buffer_inv b" and nonempty: "position b \<noteq> 0"
  shows "stack_of (popped b) = butlast (stack_of b)"
proof -
  have u: "unat (position b - 1) = unat (position b) - 1"
    using nonempty by (simp add: unat_minus_one)
  have le: "unat (position b) \<le> length (contents b)"
    using buffer_inv_position [OF inv] buffer_inv_length [OF inv] by simp
  have "stack_of (popped b) = take (unat (position b) - 1) (contents b)"
    by (simp add: stack_of_def popped_def contents_def u)
  also have "\<dots> = butlast (take (unat (position b)) (contents b))"
    using le by (simp add: butlast_take)
  finally show ?thesis by (simp add: stack_of_def)
qed

lemma unat_new_capacity:
  assumes inv: "buffer_inv b"
  shows "unat (max (capacity b * 2) 8) = max (2 * unat (capacity b)) 8"
proof -
  have "unat (capacity b) < 2 ^ 63"
    using buffer_inv_capacity_small [OF inv] by simp
  then have d: "unat (capacity b * 2) = 2 * unat (capacity b)"
    by (rule unat_double)
  show ?thesis
    by (simp add: max_def word_le_nat_alt d)
qed

lemma new_capacity_facts:
  assumes inv: "buffer_inv b"
  shows "max (capacity b * 2) 8 \<noteq> 0"
    and "unat (max (capacity b * 2) 8) < 2 ^ 62"
    and "capacity b < max (capacity b * 2) 8"
proof -
  let ?n = "max (capacity b * 2) 8"
  have u: "unat ?n = max (2 * unat (capacity b)) 8"
    using inv by (rule unat_new_capacity)
  have small: "unat (capacity b) < 2 ^ 61"
    using inv by (rule buffer_inv_capacity_small)
  from u have "unat ?n \<noteq> 0" by simp
  then show "?n \<noteq> 0" by (metis unat_eq_zero)
  from u small show "unat ?n < 2 ^ 62" by simp
  from u have "unat (capacity b) < unat ?n" by simp
  then show "capacity b < ?n" by (simp add: word_less_nat_alt)
qed

lemma position_full:
  assumes inv: "buffer_inv b" and full: "capacity b \<le> position b"
  shows "position b = capacity b"
  using assms by (simp add: buffer_inv_def)

lemma buffer_write_eq:
  assumes inv: "buffer_inv b" and v: "from_user e = Some v"
  shows "buffer_write enable_auto_resize e sizeof_int b =
           (if position b < capacity b then Some (Inr sizeof_int, stored v b)
            else if enable_auto_resize \<noteq> 0 \<and> kzalloc_ok e \<and>
                    4 * unat (max (capacity b * 2) 8) \<le> KMALLOC_MAX_SIZE
            then Some (Inr sizeof_int, stored v (resized (max (capacity b * 2) 8) b))
            else Some (Inl ENOSPC, count_overflow b))"
proof (cases "position b < capacity b")
  case True
  then show ?thesis
    using v store_value_eq [OF inv True, of v]
    by (simp add: buffer_write_def not_le [symmetric])
next
  case False
  then have full: "capacity b \<le> position b" by simp
  then have eq: "position b = capacity b" using inv by (simp add: position_full)
  let ?n = "max (capacity b * 2) 8"
  note nf = new_capacity_facts [OF inv]
  show ?thesis
  proof (cases "enable_auto_resize \<noteq> 0 \<and> kzalloc_ok e \<and> 4 * unat ?n \<le> KMALLOC_MAX_SIZE")
    case grow: True
    then have r: "resize_buffer (kzalloc_ok e) ?n b = Some (Inr (), resized ?n b)"
      using resize_buffer_eq [OF inv nf(1) nf(2), of "kzalloc_ok e"] by simp
    have inv': "buffer_inv (resized ?n b)"
      using inv grow by (simp add: buffer_inv_resized)
    have "capacity b \<le> ?n"
      using nf(3) by (rule order.strict_implies_order)
    then have m: "min (capacity b) ?n = capacity b"
      by (rule min_absorb1)
    have "position (resized ?n b) = min (position b) ?n"
      by (simp add: resized_def)
    then have "position (resized ?n b) = capacity b"
      unfolding eq m .
    then have room: "position (resized ?n b) < capacity (resized ?n b)"
      using nf(3) by (simp add: resized_def)
    show ?thesis
      using False grow full v r store_value_eq [OF inv' room, of v]
      by (simp add: buffer_write_def Let_def)
  next
    case nogrow: False
    show ?thesis
    proof (cases "enable_auto_resize = 0")
      case True
      then show ?thesis
        using False full v by (simp add: buffer_write_def)
    next
      case auto: False
      with nogrow have "resize_buffer (kzalloc_ok e) ?n b = Some (Inl ENOMEM, b)"
        using resize_buffer_eq [OF inv nf(1) nf(2), of "kzalloc_ok e"] by auto
      then show ?thesis
        using False nogrow auto full v by (simp add: buffer_write_def Let_def)
    qed
  qed
qed

lemma push_eq:
  assumes inv: "buffer_inv b" and room: "position b < capacity b"
  shows "push enable_auto_resize avail v b = Some (Inr sizeof_int, stored v b)"
  using room buffer_write_eq [OF inv, of _ v enable_auto_resize]
  by (simp add: push_def)

lemma pop_eq:
  assumes inv: "buffer_inv b" and nonempty: "position b \<noteq> 0"
  shows "pop b = Some (Inr sizeof_int, Some (last (stack_of b)), popped b)"
  using buffer_read_eq [OF inv nonempty, of sizeof_int]
  by (simp add: pop_def)

lemma pushes_eq:
  assumes "buffer_inv b" and "unat (position b) + length vs \<le> unat (capacity b)"
  shows "\<exists>b1. pushes enable_auto_resize avail vs b = Some b1 \<and> buffer_inv b1 \<and>
               stack_of b1 = stack_of b @ vs \<and> capacity b1 = capacity b"
  using assms
proof (induction vs arbitrary: b)
  case Nil
  then show ?case by simp
next
  case (Cons v vs)
  have room: "position b < capacity b"
    using Cons.prems(2) by (simp add: word_less_nat_alt)
  have p: "push enable_auto_resize avail v b = Some (Inr sizeof_int, stored v b)"
    using Cons.prems(1) room by (rule push_eq)
  have inv': "buffer_inv (stored v b)"
    using Cons.prems(1) room by (rule buffer_inv_stored)
  have cap: "capacity (stored v b) = capacity b"
    by (simp add: stored_def)
  have "unat (position (stored v b)) = Suc (unat (position b))"
    using unat_Suc_position [OF room] by (simp add: stored_def)
  then have fits: "unat (position (stored v b)) + length vs \<le> unat (capacity (stored v b))"
    using Cons.prems(2) cap by simp
  from Cons.IH [OF inv' fits] obtain b1 where
    b1: "pushes enable_auto_resize avail vs (stored v b) = Some b1" "buffer_inv b1"
      "stack_of b1 = stack_of (stored v b) @ vs" "capacity b1 = capacity (stored v b)"
    by blast
  have "stack_of b1 = stack_of b @ v # vs"
    using b1(3) stack_of_stored [OF Cons.prems(1) room, of v] by simp
  with p b1 cap show ?case by simp
qed

lemma pops_eq:
  assumes "buffer_inv b" and "stack_of b = xs @ vs"
  shows "\<exists>b2. pops (length vs) b = Some (rev vs, b2) \<and> buffer_inv b2 \<and>
               stack_of b2 = xs \<and> capacity b2 = capacity b \<and> elements b2 = elements b"
  using assms
proof (induction vs arbitrary: b rule: rev_induct)
  case Nil
  then show ?case by simp
next
  case (snoc y ys)
  have "length (stack_of b) = unat (position b)"
    using snoc.prems(1) by (rule length_stack_of)
  then have "unat (position b) \<noteq> 0" using snoc.prems(2) by simp
  then have nonempty: "position b \<noteq> 0" by (metis unat_0)
  have p: "pop b = Some (Inr sizeof_int, Some y, popped b)"
    using pop_eq [OF snoc.prems(1) nonempty] snoc.prems(2) by simp
  have inv': "buffer_inv (popped b)"
    using snoc.prems(1) nonempty by (rule buffer_inv_popped)
  have st: "stack_of (popped b) = xs @ ys"
    using stack_of_popped [OF snoc.prems(1) nonempty] snoc.prems(2)
    by (simp add: butlast_append)
  from snoc.IH [OF inv' st] obtain b2 where
    b2: "pops (length ys) (popped b) = Some (rev ys, b2)" "buffer_inv b2"
      "stack_of b2 = xs" "capacity b2 = capacity (popped b)" "elements b2 = elements (popped b)"
    by blast
  have "capacity (popped b) = capacity b" "elements (popped b) = elements b"
    by (simp_all add: popped_def)
  with p b2 show ?case by simp
qed

lemma word_eq_unatI: "unat (a :: size_t) = unat b \<Longrightarrow> a = b"
  by (rule unsigned_word_eqI)

lemma buffer_inv_roomy_buffer: "buffer_inv roomy_buffer"
  by (simp add: buffer_inv_def roomy_buffer_def contents_def sizeof_int_def KMALLOC_MAX_SIZE_def)

lemma resize_buffer_success:
  assumes inv: "buffer_inv b" and nz: "k \<noteq> 0"
    and ok: "resize_buffer avail k b = Some (Inr (), b')"
  shows "capacity b' = k" and "position b' = min (position b) k"
    and "stack_of b' = take (unat k) (stack_of b)" and "stats b' = stats b"
proof -
  from ok nz obtain new_array where
    kz: "kzalloc avail (sizeof_int * k) = Some new_array"
    by (cases "kzalloc avail (sizeof_int * k)") (simp_all add: resize_buffer_def)
  let ?n = "min (position b) k"
  have n_le: "unat ?n \<le> unat (position b)"
    by (simp add: unat_min_word)
  have pos_le: "unat (position b) \<le> length (contents b)"
    using buffer_inv_position [OF inv] buffer_inv_length [OF inv] by simp
  have "unat (position b) < 2 ^ 61"
    using buffer_inv_position [OF inv] buffer_inv_capacity_small [OF inv] by simp
  then have n_small: "unat ?n < 2 ^ 62" using n_le by simp
  have all: "capacity b' = k \<and> position b' = ?n \<and>
             stack_of b' = take (unat ?n) (contents b) \<and> stats b' = stats b"
  proof (cases "elements b \<noteq> None \<and> position b > 0")
    case True
    then obtain old where old: "elements b = Some old" by auto
    then have c: "contents b = old" by (simp add: contents_def)
    from ok nz kz True old obtain filled where
      m: "memcpy new_array old (sizeof_int * ?n) = Some filled"
      and b': "b' = b\<lparr>position := ?n, elements := Some filled, capacity := k\<rparr>"
      by (cases "memcpy new_array old (sizeof_int * ?n)")
        (simp_all add: resize_buffer_def Let_def)
    from m have "unat ?n \<le> length new_array \<and> unat ?n \<le> length old \<and>
                 filled = take (unat ?n) old @ drop (unat ?n) new_array"
      by (simp add: memcpy_def Let_def unat_times4 [OF n_small] unat_sizeof_int
          split: if_splits)
    then have "take (unat ?n) filled = take (unat ?n) old" by simp
    with b' c show ?thesis by (simp add: stack_of_def contents_def)
  next
    case False
    then have zero: "position b = 0"
    proof (cases "elements b")
      case None
      then have "contents b = []" by (simp add: contents_def)
      then have "unat (position b) = 0" using pos_le by simp
      then show ?thesis by (simp add: unat_eq_zero)
    next
      case (Some a)
      with False show ?thesis by (simp add: word_greater_zero_iff)
    qed
    from ok nz kz False have
      "b' = b\<lparr>position := 0, elements := Some new_array, capacity := k\<rparr>"
      by (auto simp: resize_buffer_def)
    with zero show ?thesis by (simp add: stack_of_def)
  qed
  then show "capacity b' = k" and "position b' = ?n" and "stats b' = stats b"
    by simp_all
  have "take (unat ?n) (contents b) = take (unat k) (stack_of b)"
    by (simp add: stack_of_def unat_min_word min.commute)
  with all show "stack_of b' = take (unat k) (stack_of b)" by simp
qed

lemma set_max_size_is_resize:
  assumes "from_user e = Some v" and "\<not> sint v < 0"
  shows "buffer_ioctl e INT_STACK_SET_MAX_SIZE b =
           (case resize_buffer (kzalloc_ok e) (scast v) b of
              None \<Rightarrow> None
            | Some (result, b') \<Rightarrow> Some (result, None, b'))"
  using assms by (simp add: buffer_ioctl_def)

lemma scast_positive:
  fixes v :: cint
  assumes "0 < sint v"
  shows "(scast v :: size_t) \<noteq> 0"
proof -
  have "unat (scast v :: size_t) = nat (sint v)"
    using assms by (simp add: unat_scast_nonneg(1))
  then have "unat (scast v :: size_t) \<noteq> 0" using assms by simp
  then show ?thesis by (metis unat_0)
qed

lemma array_read_stored:
  assumes inv: "buffer_inv b" and room: "position b < capacity b"
  shows "array_read (elements (stored v b)) (position b) = Some v"
proof -
  have "unat (position b) < length (contents b)"
    using room buffer_inv_length [OF inv] by (simp add: word_less_nat_alt)
  then show ?thesis by (simp add: array_read_def stored_def)
qed

lemma buffer_inv_cleared:
  "buffer_inv (b\<lparr>elements := None, capacity := 0, position := 0\<rparr>)"
  by (simp add: buffer_inv_def contents_def)

lemma buffer_inv_stats: "buffer_inv (b\<lparr>stats := st\<rparr>) = buffer_inv b"
  by (simp add: buffer_inv_def contents_def)

lemma buffer_inv_clear_position: "buffer_inv b \<Longrightarrow> buffer_inv (b\<lparr>position := 0\<rparr>)"
  by (simp add: buffer_inv_def contents_def)

lemma resize_buffer_total:
  assumes inv: "buffer_inv b" and small: "unat k < 2 ^ 62"
  shows "\<exists>r b'. resize_buffer avail k b = Some (r, b') \<and> buffer_inv b'"
proof (cases "k = 0")
  case True
  then show ?thesis by (simp add: resize_buffer_def buffer_inv_cleared)
next
  case False
  show ?thesis
    using resize_buffer_eq [OF inv False small, of avail] inv
    by (simp add: buffer_inv_resized)
qed

lemma buffer_ioctl_total:
  assumes inv: "buffer_inv b"
  shows "\<exists>r out b'. buffer_ioctl e cmd b = Some (r, out, b') \<and> buffer_inv b'"
proof (cases cmd)
  case INT_STACK_SET_MAX_SIZE
  show ?thesis
  proof (cases "from_user e")
    case None
    with INT_STACK_SET_MAX_SIZE inv show ?thesis by (simp add: buffer_ioctl_def)
  next
    case (Some v)
    show ?thesis
    proof (cases "sint v < 0")
      case True
      with INT_STACK_SET_MAX_SIZE Some inv show ?thesis by (simp add: buffer_ioctl_def)
    next
      case False
      then have "unat (scast v :: size_t) < 2 ^ 31" by (rule unat_scast_nonneg(2))
      then have "unat (scast v :: size_t) < 2 ^ 62" by simp
      from resize_buffer_total [OF inv this, of "kzalloc_ok e"] obtain r b' where
        "resize_buffer (kzalloc_ok e) (scast v) b = Some (r, b')" "buffer_inv b'"
        by blast
      with INT_STACK_SET_MAX_SIZE Some False show ?thesis by (simp add: buffer_ioctl_def)
    qed
  qed
next
  case CMD_GET_CAPACITY
  with inv show ?thesis by (simp add: buffer_ioctl_def)
next
  case CMD_GET_USAGE
  with inv show ?thesis by (simp add: buffer_ioctl_def)
next
  case CMD_CLEAR_BUFFER
  with inv show ?thesis by (simp add: buffer_ioctl_def buffer_inv_clear_position)
next
  case CMD_UNKNOWN
  with inv show ?thesis by (simp add: buffer_ioctl_def)
qed

lemma buffer_read_total:
  assumes inv: "buffer_inv b"
  shows "\<exists>r out b'. buffer_read e count b = Some (r, out, b') \<and> buffer_inv b'"
proof (cases "count < sizeof_int")
  case True
  with inv show ?thesis by (simp add: buffer_read_def)
next
  case long: False
  show ?thesis
  proof (cases "position b = 0")
    case True
    with long inv show ?thesis by (simp add: buffer_read_def buffer_inv_stats)
  next
    case False
    from long have "sizeof_int \<le> count" by simp
    from buffer_read_eq [OF inv False this, of e] inv buffer_inv_popped [OF inv False]
    show ?thesis by simp
  qed
qed

lemma buffer_inv_count_overflow: "buffer_inv (count_overflow b) = buffer_inv b"
  by (simp add: count_overflow_def buffer_inv_stats)

lemma buffer_write_total:
  assumes inv: "buffer_inv b"
  shows "\<exists>r b'. buffer_write enable_auto_resize e count b = Some (r, b') \<and> buffer_inv b'"
proof (cases "count = sizeof_int")
  case False
  with inv show ?thesis by (simp add: buffer_write_def)
next
  case len: True
  show ?thesis
  proof (cases "from_user e")
    case None
    with len inv show ?thesis by (simp add: buffer_write_def)
  next
    case (Some v)
    let ?n = "max (capacity b * 2) 8"
    note w = buffer_write_eq [OF inv Some, of enable_auto_resize]
    show ?thesis
    proof (cases "position b < capacity b")
      case True
      with w len buffer_inv_stored [OF inv True, of v] show ?thesis by simp
    next
      case full: False
      show ?thesis
      proof (cases "enable_auto_resize \<noteq> 0 \<and> kzalloc_ok e \<and>
                    4 * unat ?n \<le> KMALLOC_MAX_SIZE")
        case False
        with w len full inv show ?thesis by (auto simp: buffer_inv_count_overflow)
      next
        case True
        have inv': "buffer_inv (resized ?n b)"
          using inv True by (simp add: buffer_inv_resized)
        have eq: "position b = capacity b"
          using inv full by (simp add: position_full)
        note nf = new_capacity_facts [OF inv]
        have "capacity b \<le> ?n"
          using nf(3) by (rule order.strict_implies_order)
        then have m: "min (capacity b) ?n = capacity b"
          by (rule min_absorb1)
        have "position (resized ?n b) = min (position b) ?n"
          by (simp add: resized_def)
        then have "position (resized ?n b) = capacity b"
          unfolding eq m .
        then have room: "position (resized ?n b) < capacity (resized ?n b)"
          using nf(3) by (simp add: resized_def)
        from w len full True buffer_inv_stored [OF inv' room, of v]
        show ?thesis by simp
      qed
    qed
  qed
qed

lemma buffer_inv_zeroed:
  "buffer_inv (zeroed_buffer\<lparr>elements := None, capacity := 0, position := 0,
                 stats := st\<rparr>)"
  by (simp add: buffer_inv_def contents_def)

lemma init_resize_inv:
  fixes default_capacity :: cint
  assumes inv: "buffer_inv b0" and pos: "0 < sint default_capacity"
    and ok: "resize_buffer array_ok (scast default_capacity) b0 = Some (Inr (), b)"
  shows "buffer_inv b"
proof -
  have "\<not> sint default_capacity < 0" using pos by simp
  then have "unat (scast default_capacity :: size_t) < 2 ^ 31"
    by (rule unat_scast_nonneg(2))
  then have "unat (scast default_capacity :: size_t) < 2 ^ 62" by simp
  from resize_buffer_total [OF inv this, of array_ok] ok show ?thesis by simp
qed

lemma integer_buffer_init_inv:
  assumes "integer_buffer_init default_capacity struct_ok misc array_ok = Some (Inr b)"
  shows "buffer_inv b"
  using assms
  by (auto simp: integer_buffer_init_def Let_def buffer_inv_zeroed
      split: if_splits option.splits prod.splits sum.splits
      intro: init_resize_inv [OF buffer_inv_zeroed])

lemma initialize_buffer_inv:
  assumes "initialize_buffer default_capacity struct_ok array_ok = Some (Inr b)"
  shows "buffer_inv b"
  using assms
  by (auto simp: initialize_buffer_def Let_def buffer_inv_zeroed
      split: if_splits option.splits prod.splits sum.splits
      intro: init_resize_inv [OF buffer_inv_zeroed])

lemma reachable_inv: "reachable b \<Longrightarrow> buffer_inv b"
proof (induction rule: reachable.induct)
  case (after_init default_capacity struct_ok misc array_ok b)
  then show ?case by (rule integer_buffer_init_inv)
next
  case (after_read b e count r out b')
  with buffer_read_total [of b e count] show ?case by auto
next
  case (after_write b enable_auto_resize e count r b')
  with buffer_write_total [of b enable_auto_resize e count] show ?case by auto
next
  case (after_ioctl b e cmd r out b')
  with buffer_ioctl_total [of b e cmd] show ?case by auto
qed

lemma pen_probe_buffer: "pen_probe vid pid misc dev s = (r, s') \<Longrightarrow> dev_buffer s' = dev_buffer s"
  by (auto simp: pen_probe_def register_device_def Let_def
      split: if_splits option.splits prod.splits sum.splits)

lemma pen_disconnect_buffer: "dev_buffer (pen_disconnect vid pid dev s) = dev_buffer s"
  by (simp add: pen_disconnect_def unregister_device_def)

lemma reachable_lab5_inv: "reachable_lab5 s \<Longrightarrow> buffer_inv (dev_buffer s)"
proof (induction rule: reachable_lab5.induct)
  case (after_init5 default_capacity struct_ok array_ok usb s)
  then show ?case
    by (auto simp: integer_buffer_init_lab5_def
        split: option.splits sum.splits dest: initialize_buffer_inv)
next
  case (after_probe5 s usb_vid usb_pid misc dev r s')
  then show ?case by (simp add: pen_probe_buffer)
next
  case (after_disconnect5 s usb_vid usb_pid dev)
  then show ?case by (simp add: pen_disconnect_buffer)
next
  case (after_read5 s e count r out s')
  with buffer_read_total [of "dev_buffer s" e count] show ?case
    by (auto simp: buffer_read_lab5_def split: if_splits)
next
  case (after_write5 s enable_auto_resize e count r s')
  with buffer_write_total [of "dev_buffer s" enable_auto_resize e count] show ?case
    by (auto simp: buffer_write_lab5_def split: if_splits)
next
  case (after_ioctl5 s e cmd r out s')
  with buffer_ioctl_total [of "dev_buffer s" e cmd] show ?case
    by (auto simp: buffer_ioctl_lab5_def split: if_splits)
qed

lemma buffer_inv_sample_buffer: "buffer_inv sample_buffer"
  by (simp add: buffer_inv_def sample_buffer_def contents_def sizeof_int_def KMALLOC_MAX_SIZE_def)

lemma buffer_inv_full_buffer: "buffer_inv full_buffer"
  by (simp add: buffer_inv_def full_buffer_def contents_def sizeof_int_def KMALLOC_MAX_SIZE_def)

lemma stack_of_sample_buffer: "stack_of sample_buffer = [10, 20, 30]"
  by (simp add: stack_of_def contents_def sample_buffer_def)

lemma stack_of_full_buffer: "stack_of full_buffer = [10, 20]"
  by (simp add: stack_of_def contents_def full_buffer_def)

lemma integer_buffer_init_fresh: "integer_buffer_init 2 True None True = Some (Inr fresh_buffer)"
proof -
  let ?b0 = "zeroed_buffer\<lparr>elements := None, capacity := 0, position := 0,
                           stats := init_stats (stats zeroed_buffer)\<rparr>"
  have inv: "buffer_inv ?b0" by (rule buffer_inv_zeroed)
  have nz: "(2 :: size_t) \<noteq> 0" by simp
  have "resize_buffer True 2 ?b0 = Some (Inr (), resized 2 ?b0)"
    using resize_buffer_eq [OF inv nz, of True] by (simp add: KMALLOC_MAX_SIZE_def)
  moreover have "replicate (unat (2 :: size_t)) (0 :: cint) = [0, 0]"
  proof -
    have "unat (2 :: size_t) = Suc (Suc 0)" by simp
    then show ?thesis by (simp only: replicate.simps)
  qed
  then have "resized 2 ?b0 = fresh_buffer"
    by (simp add: resized_def fresh_buffer_def zeroed_buffer_def init_stats_def contents_def)
  ultimately show ?thesis
    by (simp add: integer_buffer_init_def Let_def)
qed

lemma integer_buffer_init_lab5_fresh:
  "integer_buffer_init_lab5 2 True True None = Some (Inr fresh_driver)"
proof -
  have "initialize_buffer 2 True True = integer_buffer_init 2 True None True"
    by (simp add: initialize_buffer_def integer_buffer_init_def)
  then show ?thesis
    by (simp add: integer_buffer_init_lab5_def integer_buffer_init_fresh fresh_driver_def)
qed

lemma resize_success_keeps_oldest:
  assumes inv: "buffer_inv b" and nz: "k \<noteq> 0"
    and ok: "resize_buffer avail k b = Some (Inr (), b')"
  shows "keeps_oldest k b b'"
proof -
  note r = resize_buffer_success [OF inv nz ok]
  have len: "length (stack_of b) = unat (position b)"
    using inv by (rule length_stack_of)
  have p: "position b' = (if k < position b then k else position b)"
    using r(2) by (auto simp: min_def)
  have s: "stack_of b' = (if k < position b then take (unat k) (stack_of b) else stack_of b)"
    using r(3) len by (simp add: word_less_nat_alt)
  have "contents b' ! i = contents b ! i" if "i < unat (position b')" for i
  proof -
    have i: "i < unat (position b)" "i < unat k"
      using that r(2) by (simp_all add: unat_min_word)
    have "stack_of b' ! i = contents b' ! i"
      using that by (simp add: stack_of_def)
    moreover have "stack_of b' ! i = contents b ! i"
      using i r(3) by (simp add: stack_of_def)
    ultimately show ?thesis by simp
  qed
  with r(1) r(4) p s show ?thesis unfolding keeps_oldest_def by blast
qed

lemma resize_buffer_succeeds:
  assumes inv: "buffer_inv b" and nz: "k \<noteq> 0" and small: "unat k < 2 ^ 62"
    and mem: "kzalloc avail (sizeof_int * k) \<noteq> None"
  shows "resize_buffer avail k b = Some (Inr (), resized k b)"
proof -
  have "avail \<and> 4 * unat k \<le> KMALLOC_MAX_SIZE"
    using mem kzalloc_ints [OF nz small, of avail] by (simp split: if_splits)
  then show ?thesis
    using resize_buffer_eq [OF inv nz small, of avail] by simp
qed

text \<open>
  With growth enabled and memory to be had, a push on a buffer of capacity 0 grows it to 8
  slots and succeeds.
\<close>

lemma push_after_set_capacity_zero_with_growth:
  assumes auto: "enable_auto_resize \<noteq> 0" and mem: "kzalloc_ok e" and v: "from_user e = Some v"
  shows "\<exists>b'. buffer_write enable_auto_resize e sizeof_int
                (b\<lparr>elements := None, capacity := 0, position := 0\<rparr>)
              = Some (Inr sizeof_int, b') \<and>
              capacity b' = 8 \<and> position b' = 1 \<and> stack_of b' = [v]"
proof -
  let ?z = "b\<lparr>elements := None, capacity := 0, position := 0\<rparr>"
  let ?g = "resized 8 ?z"
  have inv: "buffer_inv ?z" by (rule buffer_inv_cleared)
  have w: "buffer_write enable_auto_resize e sizeof_int ?z = Some (Inr sizeof_int, stored v ?g)"
    using buffer_write_eq [OF inv v, of enable_auto_resize] auto mem
    by (simp add: KMALLOC_MAX_SIZE_def)
  have inv': "buffer_inv ?g"
    using inv by (rule buffer_inv_resized) (simp add: KMALLOC_MAX_SIZE_def)
  have room: "position ?g < capacity ?g" by (simp add: resized_def)
  have "stack_of ?z = []" by (simp add: stack_of_def)
  then have "stack_of ?g = []" using stack_of_resized [OF inv, of 8] by simp
  then have "stack_of (stored v ?g) = [v]"
    using stack_of_stored [OF inv' room, of v] by simp
  moreover have "capacity (stored v ?g) = 8" "position (stored v ?g) = 1"
    by (simp_all add: stored_def resized_def)
  ultimately show ?thesis using w by blast
qed

section \<open>Properties\<close>

text \<open>
  C10. A read of fewer than \<open>sizeof(int)\<close> bytes and a write of any length other than
  \<open>sizeof(int)\<close> return \<open>-EINVAL\<close> and hand back the buffer as it was: array,
  capacity, position and all four counters. The lab 5 entry points do the same once the
  key is present.
\<close>

theorem malformed_length_rejected:
  "(count < sizeof_int \<longrightarrow> buffer_read e count b = Some (Inl EINVAL, None, b)) \<and>
   (count \<noteq> sizeof_int \<longrightarrow> buffer_write enable_auto_resize e count b = Some (Inl EINVAL, b)) \<and>
   (usb_key_present s \<noteq> 0 \<and> count < sizeof_int \<longrightarrow>
      buffer_read_lab5 e count s = Some (Inl EINVAL, None, s)) \<and>
   (usb_key_present s \<noteq> 0 \<and> count \<noteq> sizeof_int \<longrightarrow>
      buffer_write_lab5 enable_auto_resize e count s = Some (Inl EINVAL, s))"
  by (simp add: buffer_read_def buffer_write_def buffer_read_lab5_def buffer_write_lab5_def)

text \<open>The lengths 3 on a buffer holding three values.\<close>

theorem malformed_length_rejected_witness:
  "(3 :: size_t) < sizeof_int \<and> (3 :: size_t) \<noteq> sizeof_int \<and>
   usb_key_present present_driver \<noteq> 0 \<and>
   buffer_read sample_env 3 sample_buffer = Some (Inl EINVAL, None, sample_buffer) \<and>
   buffer_write 1 sample_env 3 sample_buffer = Some (Inl EINVAL, sample_buffer) \<and>
   buffer_read_lab5 sample_env 3 present_driver = Some (Inl EINVAL, None, present_driver) \<and>
   buffer_write_lab5 1 sample_env 3 present_driver = Some (Inl EINVAL, present_driver)"
proof -
  have a: "(3 :: size_t) < sizeof_int" by (simp add: sizeof_int_def)
  have b: "(3 :: size_t) \<noteq> sizeof_int" by (simp add: sizeof_int_def)
  have c: "usb_key_present present_driver \<noteq> 0" by (simp add: present_driver_def)
  show ?thesis
    using a b c
      malformed_length_rejected [of 3 sample_env sample_buffer 1 present_driver]
    by simp
qed

text \<open>
  C5. A pop (a read of at least \<open>sizeof(int)\<close> bytes) on a buffer whose position is 0
  returns 0 bytes and no value, leaves position 0, leaves array and capacity alone, and
  adds exactly one to \<open>underflow_count\<close> and nothing to the other counters.
\<close>

theorem pop_on_empty:
  assumes "position b = 0" and "sizeof_int \<le> count"
  shows "\<exists>b'. buffer_read e count b = Some (Inr 0, None, b') \<and>
              position b' = 0 \<and> elements b' = elements b \<and> capacity b' = capacity b \<and>
              underflow_count (stats b') = underflow_count (stats b) + 1 \<and>
              push_count (stats b') = push_count (stats b) \<and>
              pop_count (stats b') = pop_count (stats b) \<and>
              overflow_count (stats b') = overflow_count (stats b)"
  using assms by (simp add: buffer_read_def atomic_inc_def not_less [symmetric])

text \<open>An emptied buffer of capacity 2 that has seen five underflows sees its sixth.\<close>

theorem pop_on_empty_witness:
  "position empty_buffer = 0 \<and> sizeof_int \<le> (4 :: size_t) \<and>
   (\<exists>b'. buffer_read sample_env 4 empty_buffer = Some (Inr 0, None, b') \<and>
         position b' = 0 \<and> elements b' = Some [10, 20] \<and> capacity b' = 2 \<and>
         underflow_count (stats b') = 6)"
proof -
  have a: "position empty_buffer = 0" by (simp add: empty_buffer_def)
  have b: "sizeof_int \<le> (4 :: size_t)" by (simp add: sizeof_int_def)
  show ?thesis
    using a b pop_on_empty [OF a b, of sample_env]
    by (auto simp: empty_buffer_def)
qed

text \<open>
  C3. While \<open>usb_key_present\<close> is 0, write, read, ioctl (whatever the command) and open
  return \<open>-ENODEV\<close>, and the driver state handed back is the one given: buffer contents,
  capacity, position and counters are untouched.
\<close>

theorem absent_rejects_every_call:
  assumes "usb_key_present s = 0"
  shows "buffer_write_lab5 enable_auto_resize e count s = Some (Inl ENODEV, s) \<and>
         buffer_read_lab5 e count s = Some (Inl ENODEV, None, s) \<and>
         buffer_ioctl_lab5 e cmd s = Some (Inl ENODEV, None, s) \<and>
         buffer_open_lab5 s = Inl ENODEV"
  using assms
  by (simp add: buffer_write_lab5_def buffer_read_lab5_def buffer_ioctl_lab5_def
      buffer_open_lab5_def)

text \<open>The key is away while the buffer holds three values.\<close>

theorem absent_rejects_every_call_witness:
  "usb_key_present absent_driver = 0 \<and>
   buffer_write_lab5 1 sample_env 4 absent_driver = Some (Inl ENODEV, absent_driver) \<and>
   buffer_read_lab5 sample_env 4 absent_driver = Some (Inl ENODEV, None, absent_driver) \<and>
   buffer_ioctl_lab5 sample_env CMD_CLEAR_BUFFER absent_driver
     = Some (Inl ENODEV, None, absent_driver) \<and>
   buffer_open_lab5 absent_driver = Inl ENODEV"
proof -
  have a: "usb_key_present absent_driver = 0" by (simp add: absent_driver_def)
  show ?thesis
    using a absent_rejects_every_call [OF a, of 1 sample_env 4 CMD_CLEAR_BUFFER]
    by simp
qed

text \<open>
  C1. From a buffer that satisfies the invariant, a run of pushes that fits in the
  free slots succeeds whatever the growth setting, and the next \<open>n\<close> pops deliver the
  last \<open>n\<close> pushed values, newest first; what remains is the old stack followed by the
  values not yet popped. With \<open>n\<close> the number of pushes the pops deliver the whole run
  reversed and the position is back where it started.
\<close>

theorem lifo_order:
  assumes inv: "buffer_inv b"
    and fits: "unat (position b) + length vs \<le> unat (capacity b)"
    and n: "n \<le> length vs"
  shows "\<exists>b1 b2. pushes enable_auto_resize avail vs b = Some b1 \<and>
                 pops n b1 = Some (take n (rev vs), b2) \<and>
                 stack_of b1 = stack_of b @ vs \<and>
                 stack_of b2 = stack_of b @ take (length vs - n) vs \<and>
                 (n = length vs \<longrightarrow> position b2 = position b)"
proof -
  from pushes_eq [OF inv fits, of enable_auto_resize avail] obtain b1 where
    b1: "pushes enable_auto_resize avail vs b = Some b1" "buffer_inv b1"
      "stack_of b1 = stack_of b @ vs"
    by blast
  let ?keep = "take (length vs - n) vs" and ?gone = "drop (length vs - n) vs"
  have split: "stack_of b1 = (stack_of b @ ?keep) @ ?gone"
    using b1(3) by simp
  have len: "length ?gone = n" using n by simp
  from pops_eq [OF b1(2) split] obtain b2 where
    b2: "pops (length ?gone) b1 = Some (rev ?gone, b2)" "buffer_inv b2"
      "stack_of b2 = stack_of b @ ?keep"
    by blast
  have "rev ?gone = take n (rev vs)"
    using n by (simp add: take_rev)
  with b2(1) len have p: "pops n b1 = Some (take n (rev vs), b2)" by simp
  have "position b2 = position b" if "n = length vs"
  proof -
    have "stack_of b2 = stack_of b" using b2(3) that by simp
    then have "length (stack_of b2) = length (stack_of b)" by simp
    then have "unat (position b2) = unat (position b)"
      using length_stack_of [OF b2(2)] length_stack_of [OF inv] by simp
    then show ?thesis by (rule word_eq_unatI)
  qed
  with b1(1) b1(3) p b2(3) show ?thesis by blast
qed

text \<open>
  Three pushes on a buffer of capacity 4 that holds one value, then three pops.
\<close>

theorem lifo_order_witness:
  "buffer_inv roomy_buffer \<and>
   unat (position roomy_buffer) + length [1, 2, 3 :: cint] \<le> unat (capacity roomy_buffer) \<and>
   (\<exists>b1 b2. pushes 0 True [1, 2, 3] roomy_buffer = Some b1 \<and>
            pops 3 b1 = Some ([3, 2, 1], b2) \<and>
            stack_of b1 = [10, 1, 2, 3] \<and> stack_of b2 = [10] \<and> position b2 = 1)"
proof -
  have fits: "unat (position roomy_buffer) + length [1, 2, 3 :: cint] \<le> unat (capacity roomy_buffer)"
    by (simp add: roomy_buffer_def)
  have n: "3 \<le> length [1, 2, 3 :: cint]" by simp
  have st: "stack_of roomy_buffer = [10]" "position roomy_buffer = 1"
    by (simp_all add: stack_of_def contents_def roomy_buffer_def)
  show ?thesis
    using fits lifo_order [OF buffer_inv_roomy_buffer fits n, of 0 True]
    by (simp add: buffer_inv_roomy_buffer st)
qed

text \<open>
  C2. From a buffer that satisfies the invariant, a resize to \<open>k > 0\<close> whose
  \<open>kzalloc\<close> does not return \<open>NULL\<close> succeeds and sets the capacity to \<open>k\<close>. If
  \<open>k\<close> is below the position, the position becomes \<open>k\<close> and the stack is the first
  \<open>k\<close> old entries; otherwise position and stack are unchanged. Every occupied slot of
  the new array holds what the old array held at the same index, and the counters are
  untouched. This holds for \<open>resize_buffer\<close> called with any \<open>k\<close> whose byte count
  \<open>sizeof(int) * k\<close> does not wrap, and for the set-capacity ioctl
  \<open>INT_STACK_SET_MAX_SIZE\<close> with any positive argument.
\<close>

theorem resize_keeps_oldest:
  assumes inv: "buffer_inv b"
  shows "(k \<noteq> 0 \<and> unat k < 2 ^ 62 \<and> kzalloc avail (sizeof_int * k) \<noteq> None \<longrightarrow>
            (\<exists>b'. resize_buffer avail k b = Some (Inr (), b') \<and> keeps_oldest k b b')) \<and>
         (from_user e = Some v \<and> 0 < sint v \<and>
          kzalloc (kzalloc_ok e) (sizeof_int * scast v) \<noteq> None \<longrightarrow>
            (\<exists>b'. buffer_ioctl e INT_STACK_SET_MAX_SIZE b = Some (Inr (), None, b') \<and>
                  keeps_oldest (scast v) b b'))"
proof -
  have direct: "\<exists>b'. resize_buffer avail k b = Some (Inr (), b') \<and> keeps_oldest k b b'"
    if "k \<noteq> 0" "unat k < 2 ^ 62" "kzalloc avail (sizeof_int * k) \<noteq> None" for avail k
  proof -
    have ok: "resize_buffer avail k b = Some (Inr (), resized k b)"
      using inv that by (rule resize_buffer_succeeds)
    with resize_success_keeps_oldest [OF inv that(1) ok] show ?thesis by blast
  qed
  have "\<exists>b'. buffer_ioctl e INT_STACK_SET_MAX_SIZE b = Some (Inr (), None, b') \<and>
             keeps_oldest (scast v) b b'"
    if v: "from_user e = Some v" and pos: "0 < sint v"
      and mem: "kzalloc (kzalloc_ok e) (sizeof_int * scast v) \<noteq> None"
  proof -
    have nonneg: "\<not> sint v < 0" using pos by simp
    have nz: "(scast v :: size_t) \<noteq> 0" using pos by (rule scast_positive)
    have "unat (scast v :: size_t) < 2 ^ 31" using nonneg by (rule unat_scast_nonneg(2))
    then have small: "unat (scast v :: size_t) < 2 ^ 62" by simp
    from direct [OF nz small mem] obtain b' where
      "resize_buffer (kzalloc_ok e) (scast v) b = Some (Inr (), b')" "keeps_oldest (scast v) b b'"
      by blast
    then show ?thesis
      using set_max_size_is_resize [OF v nonneg, of b] by simp
  qed
  with direct show ?thesis by blast
qed

text \<open>
  A buffer holding 10, 20, 30: \<open>resize_buffer\<close> to 2, set-capacity to 2, set-capacity
  to 7.
\<close>

theorem resize_keeps_oldest_witness:
  "buffer_inv sample_buffer \<and> stack_of sample_buffer = [10, 20, 30] \<and>
   (2 :: size_t) \<noteq> 0 \<and> unat (2 :: size_t) < 2 ^ 62 \<and>
   kzalloc True (sizeof_int * 2) \<noteq> None \<and>
   (\<exists>b'. resize_buffer True 2 sample_buffer = Some (Inr (), b') \<and>
         keeps_oldest 2 sample_buffer b' \<and>
         capacity b' = 2 \<and> position b' = 2 \<and> stack_of b' = [10, 20]) \<and>
   from_user shrink_env = Some 2 \<and> 0 < sint (2 :: cint) \<and>
   kzalloc (kzalloc_ok shrink_env) (sizeof_int * scast (2 :: cint)) \<noteq> None \<and>
   (\<exists>b'. buffer_ioctl shrink_env INT_STACK_SET_MAX_SIZE sample_buffer
           = Some (Inr (), None, b') \<and>
         capacity b' = 2 \<and> position b' = 2 \<and> stack_of b' = [10, 20]) \<and>
   from_user sample_env = Some 7 \<and> 0 < sint (7 :: cint) \<and>
   kzalloc (kzalloc_ok sample_env) (sizeof_int * scast (7 :: cint)) \<noteq> None \<and>
   (\<exists>b'. buffer_ioctl sample_env INT_STACK_SET_MAX_SIZE sample_buffer
           = Some (Inr (), None, b') \<and>
         capacity b' = 7 \<and> position b' = 3 \<and> stack_of b' = [10, 20, 30])"
proof -
  have pre: "(2 :: size_t) \<noteq> 0 \<and> unat (2 :: size_t) < 2 ^ 62 \<and>
             kzalloc True (sizeof_int * 2) \<noteq> None"
    by (simp add: kzalloc_def sizeof_int_def KMALLOC_MAX_SIZE_def)
  have pre2: "from_user shrink_env = Some 2 \<and> 0 < sint (2 :: cint) \<and>
              kzalloc (kzalloc_ok shrink_env) (sizeof_int * scast (2 :: cint)) \<noteq> None"
    by (simp add: shrink_env_def kzalloc_def sizeof_int_def KMALLOC_MAX_SIZE_def)
  have pre7: "from_user sample_env = Some 7 \<and> 0 < sint (7 :: cint) \<and>
              kzalloc (kzalloc_ok sample_env) (sizeof_int * scast (7 :: cint)) \<noteq> None"
    by (simp add: sample_env_def kzalloc_def sizeof_int_def KMALLOC_MAX_SIZE_def)
  have pos: "position sample_buffer = 3" by (simp add: sample_buffer_def)
  have c2: "scast (2 :: cint) = (2 :: size_t)" and c7: "scast (7 :: cint) = (7 :: size_t)"
    by simp_all
  note t2 = resize_keeps_oldest [OF buffer_inv_sample_buffer, of 2 True shrink_env 2]
  note t7 = resize_keeps_oldest [OF buffer_inv_sample_buffer, of 2 True sample_env 7]
  from t2 pre obtain b1 where
    b1: "resize_buffer True 2 sample_buffer = Some (Inr (), b1)" "keeps_oldest 2 sample_buffer b1"
    by blast
  from b1(2) have "capacity b1 = 2 \<and> position b1 = 2 \<and> stack_of b1 = [10, 20]"
    by (simp add: keeps_oldest_def pos stack_of_sample_buffer)
  with b1 have a: "\<exists>b'. resize_buffer True 2 sample_buffer = Some (Inr (), b') \<and>
                keeps_oldest 2 sample_buffer b' \<and>
                capacity b' = 2 \<and> position b' = 2 \<and> stack_of b' = [10, 20]"
    by blast
  from t2 pre2 obtain b2 where
    b2: "buffer_ioctl shrink_env INT_STACK_SET_MAX_SIZE sample_buffer = Some (Inr (), None, b2)"
      "keeps_oldest (scast (2 :: cint)) sample_buffer b2"
    by blast
  from b2(2) have "capacity b2 = 2 \<and> position b2 = 2 \<and> stack_of b2 = [10, 20]"
    by (simp add: keeps_oldest_def pos stack_of_sample_buffer c2)
  with b2 have b: "\<exists>b'. buffer_ioctl shrink_env INT_STACK_SET_MAX_SIZE sample_buffer
                  = Some (Inr (), None, b') \<and>
                capacity b' = 2 \<and> position b' = 2 \<and> stack_of b' = [10, 20]"
    by blast
  from t7 pre7 obtain b7 where
    b7: "buffer_ioctl sample_env INT_STACK_SET_MAX_SIZE sample_buffer = Some (Inr (), None, b7)"
      "keeps_oldest (scast (7 :: cint)) sample_buffer b7"
    by blast
  from b7(2) have "capacity b7 = 7 \<and> position b7 = 3 \<and> stack_of b7 = [10, 20, 30]"
    by (simp add: keeps_oldest_def pos stack_of_sample_buffer c7)
  with b7 have c: "\<exists>b'. buffer_ioctl sample_env INT_STACK_SET_MAX_SIZE sample_buffer
                  = Some (Inr (), None, b') \<and>
                capacity b' = 7 \<and> position b' = 3 \<and> stack_of b' = [10, 20, 30]"
    by blast
  show ?thesis
    using buffer_inv_sample_buffer stack_of_sample_buffer pre pre2 pre7 a b c by simp
qed

text \<open>
  C4. A push on a buffer whose position equals its capacity. With
  \<open>enable_auto_resize\<close> zero it returns \<open>-ENOSPC\<close>, the buffer stays full and
  \<open>overflow_count\<close> goes up by one. Otherwise \<open>resize_buffer\<close> is called with
  \<open>max (capacity * 2) 8\<close>; if that returns an error the push returns \<open>-ENOSPC\<close>
  (not \<open>-ENOMEM\<close>) with the same effect; if it succeeds the push returns
  \<open>sizeof(int)\<close>, the value sits at the old position, and position and
  \<open>push_count\<close> go up by one.
\<close>

theorem push_on_full:
  assumes inv: "buffer_inv b" and full: "position b = capacity b"
    and v: "from_user e = Some v"
  shows "\<exists>r b'. buffer_write enable_auto_resize e sizeof_int b = Some (r, b') \<and>
           (if enable_auto_resize = 0 then r = Inl ENOSPC \<and> overflowed b b'
            else case resize_buffer (kzalloc_ok e) (max (capacity b * 2) 8) b of
                   None \<Rightarrow> False
                 | Some (Inl err, b0) \<Rightarrow> r = Inl ENOSPC \<and> overflowed b b'
                 | Some (Inr ok, b0) \<Rightarrow> r = Inr sizeof_int \<and> grown_and_pushed v b b')"
proof -
  let ?n = "max (capacity b * 2) 8"
  note nf = new_capacity_facts [OF inv]
  note w = buffer_write_eq [OF inv v, of enable_auto_resize]
  note rs = resize_buffer_eq [OF inv nf(1) nf(2), of "kzalloc_ok e"]
  have notroom: "\<not> position b < capacity b" using full by simp
  have ov: "overflowed b (count_overflow b)"
    using full by (simp add: overflowed_def count_overflow_def atomic_inc_def)
  show ?thesis
  proof (cases "enable_auto_resize = 0")
    case True
    with w notroom ov show ?thesis by simp
  next
    case auto: False
    show ?thesis
    proof (cases "kzalloc_ok e \<and> 4 * unat ?n \<le> KMALLOC_MAX_SIZE")
      case False
      then have "resize_buffer (kzalloc_ok e) ?n b = Some (Inl ENOMEM, b)"
        using rs by auto
      moreover have "buffer_write enable_auto_resize e sizeof_int b
                       = Some (Inl ENOSPC, count_overflow b)"
        using w notroom False by auto
      ultimately show ?thesis using auto ov by simp
    next
      case True
      let ?g = "resized ?n b"
      have r: "resize_buffer (kzalloc_ok e) ?n b = Some (Inr (), ?g)"
        using rs True by simp
      have wr: "buffer_write enable_auto_resize e sizeof_int b
                  = Some (Inr sizeof_int, stored v ?g)"
        using w notroom auto True by simp
      have inv': "buffer_inv ?g"
        using inv True by (simp add: buffer_inv_resized)
      have "capacity b \<le> ?n"
        using nf(3) by (rule order.strict_implies_order)
      then have m: "min (capacity b) ?n = capacity b"
        by (rule min_absorb1)
      have "position ?g = min (position b) ?n"
        by (simp add: resized_def)
      then have pos: "position ?g = position b"
        unfolding full m by simp
      have cap: "capacity ?g = ?n" by (simp add: resized_def)
      have room: "position ?g < capacity ?g"
        using nf(3) full pos cap by simp
      have "length (stack_of b) = unat (position b)"
        using inv by (rule length_stack_of)
      moreover have "unat (position b) \<le> unat ?n"
        using nf(3) full by (simp add: word_less_nat_alt)
      ultimately have "take (unat ?n) (stack_of b) = stack_of b" by simp
      then have st: "stack_of (stored v ?g) = stack_of b @ [v]"
        using stack_of_stored [OF inv' room, of v] stack_of_resized [OF inv, of ?n] by simp
      have rd: "array_read (elements (stored v ?g)) (position b) = Some v"
        using array_read_stored [OF inv' room, of v] pos by simp
      have "grown_and_pushed v b (stored v ?g)"
        unfolding grown_and_pushed_def
        using st rd pos unat_new_capacity [OF inv]
        by (simp add: stored_def) (simp add: resized_def)
      with auto r wr show ?thesis by simp
    qed
  qed
qed

text \<open>
  A full buffer of capacity 2: growth off, growth on without memory, growth on
  with memory.
\<close>

theorem push_on_full_witness:
  "buffer_inv full_buffer \<and> position full_buffer = capacity full_buffer \<and>
   from_user sample_env = Some 7 \<and> from_user starved_env = Some 7 \<and>
   (\<exists>b'. buffer_write 0 sample_env sizeof_int full_buffer = Some (Inl ENOSPC, b') \<and>
         overflowed full_buffer b') \<and>
   (\<exists>b'. buffer_write 1 starved_env sizeof_int full_buffer = Some (Inl ENOSPC, b') \<and>
         overflowed full_buffer b') \<and>
   (\<exists>b'. buffer_write 1 sample_env sizeof_int full_buffer = Some (Inr sizeof_int, b') \<and>
         grown_and_pushed 7 full_buffer b' \<and>
         capacity b' = 8 \<and> position b' = 3 \<and> stack_of b' = [10, 20, 7])"
proof -
  have full: "position full_buffer = capacity full_buffer"
    by (simp add: full_buffer_def)
  have v: "from_user sample_env = Some 7" "from_user starved_env = Some 7"
    by (simp_all add: sample_env_def starved_env_def)
  have cap: "max (capacity full_buffer * 2) 8 = 8" and pos: "position full_buffer = 2"
    by (simp_all add: full_buffer_def)
  have nz: "(8 :: size_t) \<noteq> 0" by simp
  have fails: "resize_buffer (kzalloc_ok starved_env) 8 full_buffer = Some (Inl ENOMEM, full_buffer)"
    using resize_buffer_eq [OF buffer_inv_full_buffer nz, of False]
    by (simp add: starved_env_def)
  have grows: "resize_buffer (kzalloc_ok sample_env) 8 full_buffer
                 = Some (Inr (), resized 8 full_buffer)"
    using resize_buffer_eq [OF buffer_inv_full_buffer nz, of True]
    by (simp add: sample_env_def KMALLOC_MAX_SIZE_def)
  have a: "\<exists>b'. buffer_write 0 sample_env sizeof_int full_buffer = Some (Inl ENOSPC, b') \<and>
                overflowed full_buffer b'"
    using push_on_full [OF buffer_inv_full_buffer full v(1), of 0] by simp
  have b: "\<exists>b'. buffer_write 1 starved_env sizeof_int full_buffer = Some (Inl ENOSPC, b') \<and>
                overflowed full_buffer b'"
    using push_on_full [OF buffer_inv_full_buffer full v(2), of 1] fails
    by (simp add: cap)
  have "\<exists>b'. buffer_write 1 sample_env sizeof_int full_buffer = Some (Inr sizeof_int, b') \<and>
             grown_and_pushed 7 full_buffer b'"
    using push_on_full [OF buffer_inv_full_buffer full v(1), of 1] grows
    by (simp add: cap)
  then have c: "\<exists>b'. buffer_write 1 sample_env sizeof_int full_buffer = Some (Inr sizeof_int, b') \<and>
                grown_and_pushed 7 full_buffer b' \<and>
                capacity b' = 8 \<and> position b' = 3 \<and> stack_of b' = [10, 20, 7]"
    by (auto simp: grown_and_pushed_def cap pos stack_of_full_buffer)
  show ?thesis
    using buffer_inv_full_buffer full v a b c by simp
qed

text \<open>
  C6. \<open>INT_STACK_SET_MAX_SIZE\<close> with argument 0 succeeds on every buffer and leaves
  \<open>elements = NULL\<close>, capacity 0 and position 0. After it \<open>CMD_GET_USAGE\<close> and
  \<open>CMD_GET_CAPACITY\<close> deliver 0, and with growth disabled every write fails and leaves
  the buffer empty; a well-formed push fails with \<open>-ENOSPC\<close>. (With growth enabled the
  push grows the buffer instead: lemma \<open>push_after_set_capacity_zero_with_growth\<close>.)
\<close>

theorem set_capacity_zero:
  assumes zero: "from_user e = Some 0"
  shows "\<exists>b'. buffer_ioctl e INT_STACK_SET_MAX_SIZE b = Some (Inr (), None, b') \<and>
              elements b' = None \<and> capacity b' = 0 \<and> position b' = 0 \<and>
              stats b' = stats b \<and>
              (to_user_ok e1 \<longrightarrow>
                 buffer_ioctl e1 CMD_GET_USAGE b' = Some (Inr (), Some 0, b') \<and>
                 buffer_ioctl e1 CMD_GET_CAPACITY b' = Some (Inr (), Some 0, b')) \<and>
              (\<exists>err b''. buffer_write 0 e2 count b' = Some (Inl err, b'') \<and>
                         elements b'' = None \<and> capacity b'' = 0 \<and> position b'' = 0) \<and>
              (from_user e2 = Some v \<longrightarrow>
                 buffer_write 0 e2 sizeof_int b' = Some (Inl ENOSPC, count_overflow b'))"
proof -
  let ?b' = "b\<lparr>elements := None, capacity := 0, position := 0\<rparr>"
  have "buffer_ioctl e INT_STACK_SET_MAX_SIZE b = Some (Inr (), None, ?b')"
    using zero by (simp add: buffer_ioctl_def resize_buffer_def)
  moreover have "buffer_ioctl e1 CMD_GET_USAGE ?b' = Some (Inr (), Some 0, ?b')"
    "buffer_ioctl e1 CMD_GET_CAPACITY ?b' = Some (Inr (), Some 0, ?b')" if "to_user_ok e1"
    using that by (simp_all add: buffer_ioctl_def)
  moreover have "\<exists>err b''. buffer_write 0 e2 count ?b' = Some (Inl err, b'') \<and>
                   elements b'' = None \<and> capacity b'' = 0 \<and> position b'' = 0"
    by (cases "from_user e2") (simp_all add: buffer_write_def count_overflow_def)
  moreover have "buffer_write 0 e2 sizeof_int ?b' = Some (Inl ENOSPC, count_overflow ?b')"
    if "from_user e2 = Some v"
    using that by (simp add: buffer_write_def)
  ultimately show ?thesis by simp
qed

text \<open>
  The buffer holding three values is set to capacity 0, queried, and pushed to.
\<close>

theorem set_capacity_zero_witness:
  "from_user zero_env = Some 0 \<and> to_user_ok sample_env \<and> from_user sample_env = Some 7 \<and>
   stack_of sample_buffer = [10, 20, 30] \<and>
   (\<exists>b'. buffer_ioctl zero_env INT_STACK_SET_MAX_SIZE sample_buffer = Some (Inr (), None, b') \<and>
         buffer_ioctl sample_env CMD_GET_USAGE b' = Some (Inr (), Some 0, b') \<and>
         buffer_ioctl sample_env CMD_GET_CAPACITY b' = Some (Inr (), Some 0, b') \<and>
         buffer_write 0 sample_env sizeof_int b' = Some (Inl ENOSPC, count_overflow b'))"
proof -
  have z: "from_user zero_env = Some 0" by (simp add: zero_env_def)
  have e: "to_user_ok sample_env" "from_user sample_env = Some 7"
    by (simp_all add: sample_env_def)
  show ?thesis
    using z e stack_of_sample_buffer
      set_capacity_zero [OF z, of sample_buffer sample_env sample_env sizeof_int 7]
    by auto
qed

text \<open>
  C7. Every state the lab 4 device or the lab 5 driver can reach satisfies the
  invariant, so its position is at most its capacity (both unsigned). From any state that
  satisfies the invariant, read, write and ioctl are defined, whatever their arguments and
  whatever the kernel answers, and leave a state that satisfies it again.
\<close>

theorem count_within_capacity:
  "(reachable b \<longrightarrow>
      buffer_inv b \<and> position b \<le> capacity b \<and> 0 \<le> uint (capacity b)) \<and>
   (reachable_lab5 s \<longrightarrow>
      buffer_inv (dev_buffer s) \<and> position (dev_buffer s) \<le> capacity (dev_buffer s) \<and>
      0 \<le> uint (capacity (dev_buffer s))) \<and>
   (buffer_inv b \<longrightarrow>
      (\<exists>r out b'. buffer_read e count b = Some (r, out, b') \<and> buffer_inv b') \<and>
      (\<exists>r b'. buffer_write enable_auto_resize e count b = Some (r, b') \<and> buffer_inv b') \<and>
      (\<exists>r out b'. buffer_ioctl e cmd b = Some (r, out, b') \<and> buffer_inv b'))"
proof -
  have le: "position x \<le> capacity x" if "buffer_inv x" for x
    using that by (simp add: buffer_inv_def)
  show ?thesis
    using reachable_inv [of b] reachable_lab5_inv [of s] le
      buffer_read_total [of b e count]
      buffer_write_total [of b enable_auto_resize e count]
      buffer_ioctl_total [of b e cmd]
    by simp
qed

text \<open>
  The state after module load with \<open>default_capacity = 2\<close>.
\<close>

theorem count_within_capacity_witness:
  "reachable fresh_buffer \<and> reachable_lab5 fresh_driver \<and> buffer_inv fresh_buffer \<and>
   position fresh_buffer \<le> capacity fresh_buffer \<and>
   position (dev_buffer fresh_driver) \<le> capacity (dev_buffer fresh_driver) \<and>
   (\<exists>r out b'. buffer_read sample_env 4 fresh_buffer = Some (r, out, b') \<and> buffer_inv b') \<and>
   (\<exists>r b'. buffer_write 1 sample_env 4 fresh_buffer = Some (r, b') \<and> buffer_inv b') \<and>
   (\<exists>r out b'. buffer_ioctl sample_env INT_STACK_SET_MAX_SIZE fresh_buffer = Some (r, out, b')
      \<and> buffer_inv b')"
proof -
  have r: "reachable fresh_buffer"
    using integer_buffer_init_fresh by (rule reachable.after_init)
  have r5: "reachable_lab5 fresh_driver"
    using integer_buffer_init_lab5_fresh by (rule reachable_lab5.after_init5)
  show ?thesis
    using r r5
      count_within_capacity
        [of fresh_buffer fresh_driver sample_env 4 1 INT_STACK_SET_MAX_SIZE]
    by simp
qed

text \<open>
  C8. A call that returns an error leaves array, capacity and position as they were.
  \<open>resize_buffer\<close> fails only with \<open>-ENOMEM\<close> and then returns the buffer it was given,
  and it does so whenever \<open>kzalloc\<close> returns \<open>NULL\<close>. A failing ioctl and a failing
  read return the buffer they were given; a read whose \<open>copy_to_user\<close> fails has put
  the position back. A failing write changes at most \<open>overflow_count\<close>.
\<close>

theorem failure_leaves_store_unchanged:
  "(resize_buffer avail k b = Some (Inl err, b') \<longrightarrow> err = ENOMEM \<and> b' = b) \<and>
   (k \<noteq> 0 \<and> kzalloc avail (sizeof_int * k) = None \<longrightarrow>
      resize_buffer avail k b = Some (Inl ENOMEM, b)) \<and>
   (buffer_ioctl e cmd b = Some (Inl err, out, b') \<longrightarrow> b' = b \<and> out = None) \<and>
   (buffer_read e count b = Some (Inl err, out, b') \<longrightarrow> b' = b \<and> out = None) \<and>
   (buffer_inv b \<and> position b \<noteq> 0 \<and> sizeof_int \<le> count \<and> \<not> to_user_ok e \<longrightarrow>
      buffer_read e count b = Some (Inl EFAULT, None, b)) \<and>
   (buffer_write enable_auto_resize e count b = Some (Inl err, b') \<longrightarrow>
      elements b' = elements b \<and> capacity b' = capacity b \<and> position b' = position b)"
proof -
  have rs: "err = ENOMEM \<and> b' = b"
    if "resize_buffer avail k b = Some (Inl err, b')" for avail k err b'
    using that
    by (auto simp: resize_buffer_def Let_def split: if_splits option.splits)
  have rs_fails: "resize_buffer avail k b = Some (Inl ENOMEM, b)"
    if "k \<noteq> 0" "kzalloc avail (sizeof_int * k) = None"
    using that by (simp add: resize_buffer_def)
  have io: "b' = b \<and> out = None" if "buffer_ioctl e cmd b = Some (Inl err, out, b')"
    using that
    by (cases cmd)
      (auto simp: buffer_ioctl_def Let_def split: if_splits option.splits prod.splits
        dest!: rs)
  have rd: "b' = b \<and> out = None" if "buffer_read e count b = Some (Inl err, out, b')"
    using that
    by (auto simp: buffer_read_def Let_def split: if_splits option.splits)
  have rd_fails: "buffer_read e count b = Some (Inl EFAULT, None, b)"
    if "buffer_inv b" "position b \<noteq> 0" "sizeof_int \<le> count" "\<not> to_user_ok e"
    using buffer_read_eq [OF that(1-3), of e] that(4) by simp
  have wr: "elements b' = elements b \<and> capacity b' = capacity b \<and> position b' = position b"
    if "buffer_write enable_auto_resize e count b = Some (Inl err, b')"
    using that
    by (auto simp: buffer_write_def Let_def store_value_def count_overflow_def
        split: if_splits option.splits prod.splits sum.splits dest!: rs)
  show ?thesis
    using rs rs_fails io rd rd_fails wr by blast
qed

text \<open>
  An allocation that fails, a copy to user space that fails, and a push on a full
  buffer.
\<close>

theorem failure_leaves_store_unchanged_witness:
  "resize_buffer False 7 sample_buffer = Some (Inl ENOMEM, sample_buffer) \<and>
   (7 :: size_t) \<noteq> 0 \<and> kzalloc False (sizeof_int * 7) = None \<and>
   buffer_ioctl starved_env INT_STACK_SET_MAX_SIZE sample_buffer
     = Some (Inl ENOMEM, None, sample_buffer) \<and>
   buffer_inv sample_buffer \<and> position sample_buffer \<noteq> 0 \<and> sizeof_int \<le> (4 :: size_t) \<and>
   \<not> to_user_ok nocopy_env \<and>
   buffer_read nocopy_env 4 sample_buffer = Some (Inl EFAULT, None, sample_buffer) \<and>
   buffer_write 0 sample_env sizeof_int full_buffer
     = Some (Inl ENOSPC, count_overflow full_buffer) \<and>
   elements (count_overflow full_buffer) = elements full_buffer \<and>
   capacity (count_overflow full_buffer) = capacity full_buffer \<and>
   position (count_overflow full_buffer) = position full_buffer"
proof -
  have nz: "(7 :: size_t) \<noteq> 0" by simp
  have kz: "kzalloc False (sizeof_int * 7) = None"
    by (simp add: kzalloc_def sizeof_int_def)
  have rs: "resize_buffer False 7 sample_buffer = Some (Inl ENOMEM, sample_buffer)"
    using failure_leaves_store_unchanged [of False 7 sample_buffer] nz kz by simp
  have io: "buffer_ioctl starved_env INT_STACK_SET_MAX_SIZE sample_buffer
              = Some (Inl ENOMEM, None, sample_buffer)"
    using rs by (simp add: buffer_ioctl_def starved_env_def)
  have pre: "position sample_buffer \<noteq> 0" "sizeof_int \<le> (4 :: size_t)"
    "\<not> to_user_ok nocopy_env"
    by (simp_all add: sample_buffer_def sizeof_int_def nocopy_env_def)
  have rd: "buffer_read nocopy_env 4 sample_buffer = Some (Inl EFAULT, None, sample_buffer)"
    using failure_leaves_store_unchanged
            [of _ _ sample_buffer _ _ nocopy_env _ _ 4]
      buffer_inv_sample_buffer pre
    by simp
  have wr: "buffer_write 0 sample_env sizeof_int full_buffer
              = Some (Inl ENOSPC, count_overflow full_buffer)"
    by (simp add: buffer_write_def sample_env_def full_buffer_def)
  have "elements (count_overflow full_buffer) = elements full_buffer \<and>
        capacity (count_overflow full_buffer) = capacity full_buffer \<and>
        position (count_overflow full_buffer) = position full_buffer"
    using failure_leaves_store_unchanged
            [of _ _ full_buffer ENOSPC "count_overflow full_buffer" sample_env _ _
                sizeof_int 0]
      wr
    by simp
  with nz kz rs io buffer_inv_sample_buffer pre rd wr show ?thesis by simp
qed

text \<open>
  C9. With room left, a push of \<open>v\<close> followed at once by a pop delivers \<open>v\<close> and
  leaves position, capacity and stack as they were before the push.
\<close>

theorem push_pop_round_trip:
  assumes inv: "buffer_inv b" and room: "position b < capacity b"
    and v: "from_user e = Some v"
    and copy: "to_user_ok e'" and len: "sizeof_int \<le> count"
  shows "\<exists>b1 b2. buffer_write enable_auto_resize e sizeof_int b = Some (Inr sizeof_int, b1) \<and>
                 buffer_read e' count b1 = Some (Inr sizeof_int, Some v, b2) \<and>
                 position b2 = position b \<and> capacity b2 = capacity b \<and>
                 stack_of b2 = stack_of b"
proof -
  have w: "buffer_write enable_auto_resize e sizeof_int b = Some (Inr sizeof_int, stored v b)"
    using room buffer_write_eq [OF inv v, of enable_auto_resize] by simp
  have inv1: "buffer_inv (stored v b)"
    using inv room by (rule buffer_inv_stored)
  have st1: "stack_of (stored v b) = stack_of b @ [v]"
    using inv room by (rule stack_of_stored)
  have "unat (position (stored v b)) = Suc (unat (position b))"
    using unat_Suc_position [OF room] by (simp add: stored_def)
  then have "unat (position (stored v b)) \<noteq> 0" by simp
  then have nonempty: "position (stored v b) \<noteq> 0" by (metis unat_0)
  have r: "buffer_read e' count (stored v b) = Some (Inr sizeof_int, Some v, popped (stored v b))"
    using buffer_read_eq [OF inv1 nonempty len, of e'] copy st1 by simp
  have "position (popped (stored v b)) = position b"
    by (simp add: popped_def stored_def)
  moreover have "capacity (popped (stored v b)) = capacity b"
    by (simp add: popped_def stored_def)
  moreover have "stack_of (popped (stored v b)) = stack_of b"
    using stack_of_popped [OF inv1 nonempty] st1 by simp
  ultimately show ?thesis using w r by blast
qed

text \<open>
  Push 7 and pop it again on a buffer of capacity 4 that holds one value.
\<close>

theorem push_pop_round_trip_witness:
  "buffer_inv roomy_buffer \<and> position roomy_buffer < capacity roomy_buffer \<and>
   (\<exists>b1 b2. buffer_write 0 sample_env sizeof_int roomy_buffer = Some (Inr sizeof_int, b1) \<and>
            buffer_read sample_env 4 b1 = Some (Inr sizeof_int, Some 7, b2) \<and>
            position b2 = 1 \<and> stack_of b2 = [10])"
proof -
  have room: "position roomy_buffer < capacity roomy_buffer"
    by (simp add: roomy_buffer_def)
  have v: "from_user sample_env = Some 7" and copy: "to_user_ok sample_env"
    by (simp_all add: sample_env_def)
  have len: "sizeof_int \<le> (4 :: size_t)" by (simp add: sizeof_int_def)
  have st: "stack_of roomy_buffer = [10]" "position roomy_buffer = 1"
    by (simp_all add: stack_of_def contents_def roomy_buffer_def)
  show ?thesis
    using room push_pop_round_trip [OF buffer_inv_roomy_buffer room v copy len, of 0]
    by (simp add: buffer_inv_roomy_buffer st) blast
qed

end
